theory Spec2Isabelle
  imports Main "HOL-Library.Word"
begin

section \<open>Strings and the chat output of TwitchBotBase\<close>

text \<open>
  A TypeScript string is a sequence of UTF-16 code units and \<open>.length\<close> counts
  code units, so a string is a list of 16-bit words. \<open>js_lit\<close> embeds an ASCII
  literal of the source.
\<close>

type_synonym js_string = "16 word list"

definition js_lit :: "string \<Rightarrow> js_string" where
  "js_lit s = map (\<lambda>c. of_nat (of_char c)) s"

text \<open>
  What the bot has emitted: the calls made to \<open>super.chat\<close> (recipient and text,
  oldest first) and the lines written with \<open>console.log\<close>.
\<close>

record bot_out =
  sent :: "(js_string \<times> js_string) list"
  console :: "js_string list"

definition console_log :: "js_string \<Rightarrow> bot_out \<Rightarrow> bot_out" where
  "console_log line b = b\<lparr>console := console b @ [line]\<rparr>"

text \<open>
  \<open>IrcBotBase.chat\<close>, the method \<open>TwitchBotBase.chat\<close> overrides and calls through
  \<open>super\<close>, is the underlying chat output; the call is recorded with its arguments.
\<close>

definition super_chat :: "js_string \<Rightarrow> js_string \<Rightarrow> bot_out \<Rightarrow> bot_out" where
  "super_chat recipient message b = b\<lparr>sent := sent b @ [(recipient, message)]\<rparr>"

definition maxChatMessageLength :: nat where
  "maxChatMessageLength = 500"

definition tooLongMessage :: js_string where
  "tooLongMessage = js_lit ''<Message was too long. Please file a bug report with the owner :)>''"

text \<open>\<open>TwitchBotBase.chat\<close> (part_000, lines 741-748).\<close>

definition chat :: "js_string \<Rightarrow> js_string \<Rightarrow> bot_out \<Rightarrow> bot_out" where
  "chat recipient message b =
     (if length message > maxChatMessageLength
      then super_chat recipient tooLongMessage
             (console_log (js_lit ''Message too long for Twitch: '' @ message) b)
      else super_chat recipient message b)"

section \<open>Deferred values\<close>

text \<open>
  Modelled from the spec: \<open>Future.ts\<close> (the class \<open>Future\<close>, a promise with a public
  \<open>resolve\<close>) is not among the sources. Following sections 3 and 4.1 of the specification,
  a Deferred Value is pending or settled with a value; consumers that ask while it is
  pending are suspended and are handed the value when it is settled; consumers that ask
  afterwards are handed it at once. A second \<open>settle\<close> is reported as \<open>AlreadySettled\<close>
  and leaves the state as it is.
\<close>

record 'a Future =
  settled :: "'a option"
  waiting :: "nat list"
  delivered :: "(nat \<times> 'a) list"

datatype settle_result = Settled | AlreadySettled

definition new_Future :: "'a Future" where
  "new_Future = \<lparr>settled = None, waiting = [], delivered = []\<rparr>"

definition settle :: "'a \<Rightarrow> 'a Future \<Rightarrow> settle_result \<times> 'a Future" where
  "settle v f =
     (case settled f of
        None \<Rightarrow>
          (Settled, f\<lparr>settled := Some v, waiting := [],
                      delivered := delivered f @ map (\<lambda>c. (c, v)) (waiting f)\<rparr>)
      | Some _ \<Rightarrow> (AlreadySettled, f))"

definition resolve :: "'a \<Rightarrow> 'a Future \<Rightarrow> 'a Future" where
  "resolve v f = snd (settle v f)"

definition get_value :: "nat \<Rightarrow> 'a Future \<Rightarrow> 'a Future" where
  "get_value c f =
     (case settled f of
        None \<Rightarrow> f\<lparr>waiting := waiting f @ [c]\<rparr>
      | Some v \<Rightarrow> f\<lparr>delivered := delivered f @ [(c, v)]\<rparr>)"

datatype 'a future_call = Settle 'a | Get nat

fun future_step :: "'a Future \<Rightarrow> 'a future_call \<Rightarrow> 'a Future" where
  "future_step f (Settle v) = resolve v f"
| "future_step f (Get c) = get_value c f"

definition future_run :: "'a future_call list \<Rightarrow> 'a Future" where
  "future_run calls = foldl future_step new_Future calls"

text \<open>The number of \<open>settle\<close> calls of a sequence that change the state.\<close>

fun state_changes :: "'a Future \<Rightarrow> 'a future_call list \<Rightarrow> nat" where
  "state_changes f [] = 0"
| "state_changes f (Settle v # cs) =
     (if resolve v f = f then 0 else 1) + state_changes (resolve v f) cs"
| "state_changes f (Get c # cs) = state_changes (get_value c f) cs"

text \<open>The consumers that have asked for the value, in order.\<close>

fun getters :: "'a future_call list \<Rightarrow> nat list" where
  "getters [] = []"
| "getters (Settle v # cs) = getters cs"
| "getters (Get c # cs) = c # getters cs"

text \<open>
  The invariant of a Deferred Value whose consumers so far are \<open>gs\<close>: pending, with all of
  them waiting and none answered, or settled, with nobody waiting and each of them
  answered the value.
\<close>

definition future_inv :: "nat list \<Rightarrow> 'a Future \<Rightarrow> bool" where
  "future_inv gs f =
     (case settled f of
        None \<Rightarrow> delivered f = [] \<and> waiting f = gs
      | Some v \<Rightarrow> waiting f = [] \<and> set (delivered f) = (\<lambda>c. (c, v)) ` set gs)"

section \<open>The spreadsheet tasks of GoogleAPI\<close>

text \<open>
  A \<open>number\<close> of the source is an IEEE double. The numbers of the handlers are counts of
  channel points and bits; they are modelled as integers, and the model computes on them
  exactly. The source computes the same values as long as the operands and the result of
  an operation are safe integers, of magnitude at most \<open>2^53 - 1\<close>
  (\<open>Number.MAX_SAFE_INTEGER\<close>); beyond that range a sum of doubles is rounded, which the
  model does not follow, so a statement that depends on the value of a sum carries the
  range as a hypothesis. A \<open>Date\<close> is passed through unread and is modelled by its epoch
  time.
\<close>

type_synonym Date = int

definition MAX_SAFE_INTEGER :: int where
  "MAX_SAFE_INTEGER = 9007199254740991"

definition is_safe_integer :: "int \<Rightarrow> bool" where
  "is_safe_integer n = (\<bar>n\<bar> \<le> MAX_SAFE_INTEGER)"

fun decimal :: "nat \<Rightarrow> string" where
  "decimal n =
     (if n < 10 then [char_of (48 + n)]
      else decimal (n div 10) @ [char_of (48 + n mod 10)])"

declare decimal.simps [simp del]

text \<open>
  A number inside a template string. A safe integer prints as its decimal digits, which
  is what this function gives; the source prints in exponent notation from \<open>10^21\<close> on,
  which lies outside the range the model follows.
\<close>

definition number_toString :: "int \<Rightarrow> js_string" where
  "number_toString i =
     (if i < 0 then js_lit ''-'' @ js_lit (decimal (nat (- i))) else js_lit (decimal (nat i)))"

datatype err = Err js_string

fun err_text :: "err \<Rightarrow> js_string" where
  "err_text (Err m) = m"

definition incentiveSheetId :: js_string where
  "incentiveSheetId = js_lit ''1dNi-OkDok6SH8VrN1s23l-9BIuekwBgfdXsu-SqIIMY''"

definition gameRequestSubSheet :: int where
  "gameRequestSubSheet = 384782784"

definition bidwarSubSheet :: int where
  "bidwarSubSheet = 877321766"

text \<open>
  The calls a task makes to the remote document, in order: a read of a sub-sheet
  (\<open>getGameRequestSpreadsheet\<close>, \<open>getBidwarSpreadsheet\<close>) and a write of a whole
  sub-sheet (\<open>pushSpreadsheet\<close>). What the remote answers is the task's environment:
  a read returns the sheet or throws, a write succeeds or throws.
\<close>

datatype 's remote_call =
  ReadSheet js_string int
| PushSheet js_string int 's

record 's remote_env =
  read_result :: "err + 's"
  push_result :: "'s \<Rightarrow> err option"

text \<open>
  What a running task has done so far: the bot's output, the remote calls, and the error
  it has thrown, if any. A task additionally owns the \<open>Future\<close> its handler returns.
\<close>

record 's world =
  bot :: bot_out
  calls :: "'s remote_call list"
  thrown :: "err option"

definition say :: "js_string \<Rightarrow> js_string \<Rightarrow> ('s, 'm) world_scheme \<Rightarrow> ('s, 'm) world_scheme" where
  "say recipient message w = w\<lparr>bot := chat recipient message (bot w)\<rparr>"

definition log_error :: "err \<Rightarrow> ('s, 'm) world_scheme \<Rightarrow> ('s, 'm) world_scheme" where
  "log_error e w = w\<lparr>bot := console_log (err_text e) (bot w)\<rparr>"

definition called :: "'s remote_call \<Rightarrow> ('s, 'm) world_scheme \<Rightarrow> ('s, 'm) world_scheme" where
  "called c w = w\<lparr>calls := calls w @ [c]\<rparr>"

definition throw :: "err \<Rightarrow> ('s, 'm) world_scheme \<Rightarrow> ('s, 'm) world_scheme" where
  "throw e w = w\<lparr>thrown := Some e\<rparr>"

datatype FundGameRequestOutcomeType = Fulfilled | Unfulfilled | PendingConfirmation

text \<open>
  The \<open>complete\<close> of an outcome is a closure over the spreadsheet object the task has
  read, and running it changes that object. It is the captured sheet together with the
  body, which is given the remote's answers and the sheet as it is now and returns the
  sheet as it has left it; running the closure puts the new sheet back.
\<close>

type_synonym 's completion = "'s \<times> ('s remote_env \<Rightarrow> 's \<Rightarrow> 's world \<Rightarrow> 's \<times> 's world)"

definition run_completion :: "'s completion \<Rightarrow> 's remote_env \<Rightarrow> 's world \<Rightarrow> 's completion \<times> 's world" where
  "run_completion c env w =
     (case c of (captured, body) \<Rightarrow>
        (case body env captured w of (captured', w') \<Rightarrow> ((captured', body), w')))"

record 's FundGameRequestOutcome =
  type :: FundGameRequestOutcomeType
  overfundAmount :: "int option"
  complete :: "'s completion option"

record ('s, 'o) task_state = "'s world" +
  future :: "'o Future"

definition future_resolve :: "'o \<Rightarrow> ('s, 'o, 'm) task_state_scheme \<Rightarrow> ('s, 'o, 'm) task_state_scheme" where
  "future_resolve v st = st\<lparr>future := resolve v (future st)\<rparr>"

subsection \<open>Game requests\<close>

text \<open>
  \<open>GameRequest_Spreadsheet\<close> is declared outside the sources; the handlers use an entry's
  two point counts and three of the sheet's methods, which are parameters here. The
  methods that mutate the sheet return the new sheet.
\<close>

record GameRequest_Entry =
  pointsContributed :: int
  pointsToActivate :: int

record 's GameRequest_ops =
  findEntry :: "'s \<Rightarrow> js_string \<Rightarrow> GameRequest_Entry option"
  addPointsToEntry :: "'s \<Rightarrow> js_string \<Rightarrow> js_string \<Rightarrow> int \<Rightarrow> Date \<Rightarrow> 's"
  addEntry :: "'s \<Rightarrow> js_string \<Rightarrow> int \<Rightarrow> int option \<Rightarrow> js_string \<Rightarrow> int \<Rightarrow> Date \<Rightarrow> 's"

text \<open>
  The body of the closure \<open>completeFunding\<close> of \<open>handleGameRequestFund\<close> (lines 120-124):
  \<open>addPointsToEntry\<close> changes the captured \<open>gameRequestSpreadsheet\<close> in place, and the
  changed sheet is what is pushed and what the closure holds afterwards.
\<close>

definition completeFunding ::
  "'s GameRequest_ops \<Rightarrow> js_string \<Rightarrow> js_string \<Rightarrow> js_string \<Rightarrow> int \<Rightarrow> Date \<Rightarrow>
     's remote_env \<Rightarrow> 's \<Rightarrow> ('s, 'm) world_scheme \<Rightarrow> 's \<times> ('s, 'm) world_scheme" where
  "completeFunding ops respondTo gameName username points timestamp env gameRequestSpreadsheet w =
     (let sheet = addPointsToEntry ops gameRequestSpreadsheet username gameName points timestamp;
          w1 = called (PushSheet incentiveSheetId gameRequestSubSheet sheet) w
      in (sheet,
          case push_result env sheet of
            Some e \<Rightarrow> throw e w1
          | None \<Rightarrow>
              say respondTo
                (js_lit ''@'' @ username @ js_lit '', your '' @ number_toString points
                  @ js_lit '' points were successfully added to requesting '' @ gameName
                  @ js_lit '' on stream!'') w1))"

text \<open>The task of \<open>handleGameRequestFund\<close> (lines 111-139).\<close>

definition fund_task ::
  "'s GameRequest_ops \<Rightarrow> 's remote_env \<Rightarrow> js_string \<Rightarrow> js_string \<Rightarrow> js_string \<Rightarrow> int \<Rightarrow> Date \<Rightarrow>
     ('s, 's FundGameRequestOutcome) task_state \<Rightarrow> ('s, 's FundGameRequestOutcome) task_state" where
  "fund_task ops env respondTo gameName username points timestamp st =
     (let st1 = called (ReadSheet incentiveSheetId gameRequestSubSheet) st
      in case read_result env of
           Inl e \<Rightarrow> throw e st1
         | Inr gameRequestSpreadsheet \<Rightarrow>
            (case findEntry ops gameRequestSpreadsheet gameName of
               None \<Rightarrow>
                 future_resolve \<lparr>type = Unfulfilled, overfundAmount = None, complete = None\<rparr>
                   (say respondTo
                      (js_lit ''@'' @ username @ js_lit '', your game request was detected as a new request; please wait until an admin adds this game to the spreadsheet before adding any further points'')
                      st1)
             | Some existingEntry \<Rightarrow>
                 (let notCurrentlyOverfunded =
                        (pointsContributed existingEntry \<le> pointsToActivate existingEntry);
                      wouldBeOverfunded =
                        (pointsContributed existingEntry + points > pointsToActivate existingEntry)
                  in if notCurrentlyOverfunded \<and> wouldBeOverfunded
                     then future_resolve
                            \<lparr>type = PendingConfirmation,
                             overfundAmount = Some (pointsContributed existingEntry + points
                                                     - pointsToActivate existingEntry),
                             complete = Some (gameRequestSpreadsheet,
                                              completeFunding ops respondTo gameName username
                                                points timestamp)\<rparr>
                            st1
                     else (let st2 = snd (completeFunding ops respondTo gameName username points
                                            timestamp env gameRequestSpreadsheet st1)
                           in case thrown st2 of
                                Some e \<Rightarrow> st2
                              | None \<Rightarrow>
                                  future_resolve
                                    \<lparr>type = Fulfilled, overfundAmount = None, complete = None\<rparr>
                                    st2))))"

text \<open>The task of \<open>handleGameRequestAdd\<close> (lines 148-170).\<close>

definition add_task ::
  "'s GameRequest_ops \<Rightarrow> 's remote_env \<Rightarrow> js_string \<Rightarrow> js_string \<Rightarrow> int \<Rightarrow> int option \<Rightarrow>
     js_string \<Rightarrow> int \<Rightarrow> Date \<Rightarrow> ('s, unit) task_state \<Rightarrow> ('s, unit) task_state" where
  "add_task ops env respondTo gameName gameLengthHours pointsToActivate' username points timestamp st =
     (let st1 = called (ReadSheet incentiveSheetId gameRequestSubSheet) st
      in case read_result env of
           Inl e \<Rightarrow>
             future_resolve ()
               (log_error e
                  (say respondTo
                     (js_lit ''Failed to read game request spreadsheet. No data altered.'') st1))
         | Inr gameRequestSpreadsheet \<Rightarrow>
            (case findEntry ops gameRequestSpreadsheet gameName of
               Some existingEntry \<Rightarrow>
                 future_resolve ()
                   (say respondTo (js_lit ''Game request already present in spreadsheet.'') st1)
             | None \<Rightarrow>
                 (let sheet = addEntry ops gameRequestSpreadsheet gameName gameLengthHours
                                pointsToActivate' username points timestamp;
                      st2 = called (PushSheet incentiveSheetId gameRequestSubSheet sheet) st1
                  in case push_result env sheet of
                       Some e \<Rightarrow> throw e st2
                     | None \<Rightarrow>
                         future_resolve ()
                           (say respondTo (js_lit ''Game request successfully added.'') st2))))"

subsection \<open>The bidwar bank\<close>

text \<open>
  \<open>Bidwar_Spreadsheet\<close> is declared outside the sources as well; its three methods are
  parameters. \<open>spendBitsOnEntry\<close> and \<open>addEntry\<close> return a status with an optional
  message next to the sheet they have changed.
\<close>

record Bidwar_status =
  success :: bool
  message :: "js_string option"

record 'b Bidwar_ops =
  addBitsToUser :: "'b \<Rightarrow> js_string \<Rightarrow> js_string \<Rightarrow> int \<Rightarrow> Date \<Rightarrow> js_string option \<Rightarrow> 'b"
  spendBitsOnEntry ::
    "'b \<Rightarrow> js_string \<Rightarrow> js_string \<Rightarrow> js_string \<Rightarrow> int \<Rightarrow> Date \<Rightarrow> Bidwar_status \<times> 'b"
  bidwar_addEntry :: "'b \<Rightarrow> js_string \<Rightarrow> Bidwar_status \<times> 'b"

text \<open>A string in a condition is true when it is defined and not empty.\<close>

fun truthy :: "js_string option \<Rightarrow> bool" where
  "truthy None = False"
| "truthy (Some m) = (m \<noteq> [])"

record TwitchEventSub_Event_Cheer =
  is_anonymous :: bool
  user_id :: "js_string option"
  user_name :: "js_string option"
  bits :: int

text \<open>
  The task of \<open>handleCheer\<close> (lines 179-187); \<open>created_at\<close> is the date of the
  subscription.
\<close>

definition cheer_task ::
  "'b Bidwar_ops \<Rightarrow> 'b remote_env \<Rightarrow> TwitchEventSub_Event_Cheer \<Rightarrow> Date \<Rightarrow>
     ('b, unit) task_state \<Rightarrow> ('b, unit) task_state" where
  "cheer_task ops env event created_at st =
     (if is_anonymous event then future_resolve () st
      else case user_id event of
        None \<Rightarrow> future_resolve () st
      | Some uid \<Rightarrow>
         (case user_name event of
            None \<Rightarrow> future_resolve () st
          | Some uname \<Rightarrow>
             (let st1 = called (ReadSheet incentiveSheetId bidwarSubSheet) st
              in case read_result env of
                   Inl e \<Rightarrow> throw e st1
                 | Inr bidwarSpreadsheet \<Rightarrow>
                    (let sheet = addBitsToUser ops bidwarSpreadsheet uid uname (bits event)
                                   created_at None;
                         st2 = called (PushSheet incentiveSheetId bidwarSubSheet sheet) st1
                     in case push_result env sheet of
                          Some e \<Rightarrow> throw e st2
                        | None \<Rightarrow> st2))))"

text \<open>The task of \<open>handleBidwarContribute\<close> (lines 196-208).\<close>

definition contribute_task ::
  "'b Bidwar_ops \<Rightarrow> 'b remote_env \<Rightarrow> js_string \<Rightarrow> js_string \<Rightarrow> js_string \<Rightarrow> js_string \<Rightarrow> int \<Rightarrow>
     Date \<Rightarrow> ('b, unit) task_state \<Rightarrow> ('b, unit) task_state" where
  "contribute_task ops env respondTo userId username gameName bits' timestamp st =
     (let st1 = called (ReadSheet incentiveSheetId bidwarSubSheet) st
      in case read_result env of
           Inl e \<Rightarrow> throw e st1
         | Inr bidwarSpreadsheet \<Rightarrow>
            (case spendBitsOnEntry ops bidwarSpreadsheet userId username gameName bits' timestamp of
               (status, sheet) \<Rightarrow>
                 (let st2 = (if truthy (message status)
                             then say respondTo (the (message status)) st1 else st1)
                  in if \<not> success status then st2
                     else (let st3 = called (PushSheet incentiveSheetId bidwarSubSheet sheet) st2
                           in case push_result env sheet of
                                Some e \<Rightarrow> throw e st3
                              | None \<Rightarrow>
                                  say respondTo
                                    (js_lit ''@'' @ username
                                      @ js_lit '', your bits were successfully contributed to ''
                                      @ gameName @ js_lit ''.'') st3))))"

text \<open>The task of \<open>handleBidwarAddEntry\<close> (lines 217-231); its body is one \<open>try\<close>.\<close>

definition addEntry_task ::
  "'b Bidwar_ops \<Rightarrow> 'b remote_env \<Rightarrow> js_string \<Rightarrow> js_string \<Rightarrow>
     ('b, unit) task_state \<Rightarrow> ('b, unit) task_state" where
  "addEntry_task ops env respondTo gameName st =
     (let st1 = called (ReadSheet incentiveSheetId bidwarSubSheet) st
      in case read_result env of
           Inl e \<Rightarrow> log_error e (say respondTo (js_lit ''Error adding entry.'') st1)
         | Inr bidwarSpreadsheet \<Rightarrow>
            (case bidwar_addEntry ops bidwarSpreadsheet gameName of
               (status, sheet) \<Rightarrow>
                 if \<not> success status \<and> truthy (message status)
                 then say respondTo (the (message status)) st1
                 else (let st2 = called (PushSheet incentiveSheetId bidwarSubSheet sheet) st1
                       in case push_result env sheet of
                            Some e \<Rightarrow>
                              log_error e (say respondTo (js_lit ''Error adding entry.'') st2)
                          | None \<Rightarrow>
                              say respondTo
                                (js_lit ''Bidwar entry '' @ gameName
                                  @ js_lit '' was successfully added.'') st2)))"

text \<open>The task of \<open>handleBidwarAddFunds\<close> (lines 240-250), one \<open>try\<close> again.\<close>

definition addFunds_task ::
  "'b Bidwar_ops \<Rightarrow> 'b remote_env \<Rightarrow> js_string \<Rightarrow> js_string \<Rightarrow> js_string \<Rightarrow> int \<Rightarrow>
     js_string option \<Rightarrow> Date \<Rightarrow> ('b, unit) task_state \<Rightarrow> ('b, unit) task_state" where
  "addFunds_task ops env respondTo userId username amount source timestamp st =
     (let st1 = called (ReadSheet incentiveSheetId bidwarSubSheet) st
      in case read_result env of
           Inl e \<Rightarrow> log_error e (say respondTo (js_lit ''Error adding entry.'') st1)
         | Inr bidwarSpreadsheet \<Rightarrow>
            (let sheet = addBitsToUser ops bidwarSpreadsheet userId username amount timestamp
                           (Some (case source of
                                    None \<Rightarrow> js_lit ''manually added by admin''
                                  | Some src \<Rightarrow> src));
                 st2 = called (PushSheet incentiveSheetId bidwarSubSheet sheet) st1
             in case push_result env sheet of
                  Some e \<Rightarrow> log_error e (say respondTo (js_lit ''Error adding entry.'') st2)
                | None \<Rightarrow>
                    say respondTo
                      (js_lit ''User '' @ username @ js_lit '' had '' @ number_toString amount
                        @ js_lit '' added to their bidwar bank balance.'') st2))"

text \<open>A task has run to completion when it has returned or thrown; both are final states
  of the functions above. The handler's \<open>Future\<close> is settled when it holds a value.\<close>

definition future_settled :: "('s, 'o, 'm) task_state_scheme \<Rightarrow> bool" where
  "future_settled st = (settled (future st) \<noteq> None)"

text \<open>The state in which a handler's task starts: the \<open>Future\<close> is the one just created.\<close>

definition task_start :: "bot_out \<Rightarrow> 's remote_call list \<Rightarrow> ('s, 'o) task_state" where
  "task_start b cs = \<lparr>bot = b, calls = cs, thrown = None, future = new_Future\<rparr>"

text \<open>The writes among a list of remote calls.\<close>

fun is_push :: "'s remote_call \<Rightarrow> bool" where
  "is_push (PushSheet _ _ _) = True"
| "is_push (ReadSheet _ _) = False"

definition pushes :: "'s remote_call list \<Rightarrow> 's remote_call list" where
  "pushes cs = filter is_push cs"

subsection \<open>A small ledger to run the tasks on\<close>

text \<open>
  A game-request sheet as a list of named entries and a bidwar bank as a list of
  postings, with a remote that answers every read with the given sheet and accepts
  every write.
\<close>

definition example_ops :: "(js_string \<times> GameRequest_Entry) list GameRequest_ops" where
  "example_ops =
     \<lparr>findEntry = map_of,
      addPointsToEntry = (\<lambda>s username gameName points timestamp.
         map (\<lambda>(n, e). if n = gameName
                         then (n, e\<lparr>pointsContributed := pointsContributed e + points\<rparr>)
                         else (n, e)) s),
      addEntry = (\<lambda>s gameName gameLengthHours pta username points timestamp.
         s @ [(gameName, \<lparr>pointsContributed = points,
                           pointsToActivate = (case pta of None \<Rightarrow> 0 | Some p \<Rightarrow> p)\<rparr>)])\<rparr>"

definition example_bank :: "(js_string \<times> int) list Bidwar_ops" where
  "example_bank =
     \<lparr>addBitsToUser = (\<lambda>s userId username amount timestamp source. s @ [(userId, amount)]),
      spendBitsOnEntry = (\<lambda>s userId username gameName amount timestamp.
         (\<lparr>success = True, message = None\<rparr>, s @ [(userId, - amount)])),
      bidwar_addEntry = (\<lambda>s gameName. (\<lparr>success = True, message = None\<rparr>, s))\<rparr>"

definition reliable :: "'s \<Rightarrow> 's remote_env" where
  "reliable sheet = \<lparr>read_result = Inr sheet, push_result = (\<lambda>_. None)\<rparr>"

definition unreadable :: "'s remote_env" where
  "unreadable = \<lparr>read_result = Inl (Err (js_lit ''read failed'')), push_result = (\<lambda>_. None)\<rparr>"

definition quiet :: bot_out where
  "quiet = \<lparr>sent = [], console = []\<rparr>"

section \<open>The serialized task executor\<close>

text \<open>
  Modelled from the spec: \<open>TaskQueue.ts\<close> (the class \<open>TaskQueue\<close> with \<open>addTask\<close> and
  \<open>startQueue\<close>) is not among the sources. Following sections 3 and 4.2 of the
  specification, the executor holds the sequence of tasks not yet run and the flag
  "currently draining"; \<open>addTask\<close> appends to the tail; \<open>startQueue\<close> starts the drain
  loop unless it is running already; the loop pops the head, awaits its execution and,
  whether the task returned or raised, goes on with the next until the sequence is empty.
  The task being awaited is the loop's local variable \<open>running\<close>. The \<open>history\<close> records
  when an execution began and ended (with \<open>False\<close> for a task that raised); it is not
  read by any operation.
\<close>

datatype 't exec_event = Started 't | Finished 't bool

record 't TaskQueue =
  tasks :: "'t list"
  draining :: bool
  running :: "'t option"
  history :: "'t exec_event list"

definition new_TaskQueue :: "'t TaskQueue" where
  "new_TaskQueue = \<lparr>tasks = [], draining = False, running = None, history = []\<rparr>"

definition addTask :: "'t \<Rightarrow> 't TaskQueue \<Rightarrow> 't TaskQueue" where
  "addTask t q = q\<lparr>tasks := tasks q @ [t]\<rparr>"

text \<open>One turn of the drain loop, taken when no task is being awaited.\<close>

definition drain_next :: "'t TaskQueue \<Rightarrow> 't TaskQueue" where
  "drain_next q =
     (case tasks q of
        [] \<Rightarrow> q\<lparr>draining := False, running := None\<rparr>
      | t # ts \<Rightarrow> q\<lparr>tasks := ts, running := Some t, history := history q @ [Started t]\<rparr>)"

definition startQueue :: "'t TaskQueue \<Rightarrow> 't TaskQueue" where
  "startQueue q = (if draining q then q else drain_next (q\<lparr>draining := True\<rparr>))"

text \<open>The awaited task returns (\<open>True\<close>) or raises (\<open>False\<close>); the loop takes its next turn.\<close>

definition task_settles :: "bool \<Rightarrow> 't TaskQueue \<Rightarrow> 't TaskQueue" where
  "task_settles ok q =
     (case running q of
        None \<Rightarrow> q
      | Some t \<Rightarrow> drain_next (q\<lparr>running := None, history := history q @ [Finished t ok]\<rparr>))"

datatype 't queue_event = AddTask 't | StartQueue | TaskSettles bool

fun queue_step :: "'t TaskQueue \<Rightarrow> 't queue_event \<Rightarrow> 't TaskQueue" where
  "queue_step q (AddTask t) = addTask t q"
| "queue_step q StartQueue = startQueue q"
| "queue_step q (TaskSettles ok) = task_settles ok q"

definition queue_run :: "'t queue_event list \<Rightarrow> 't TaskQueue" where
  "queue_run evs = foldl queue_step new_TaskQueue evs"

text \<open>The tasks submitted by a sequence of events, and the tasks a history has started.\<close>

fun submitted :: "'t queue_event list \<Rightarrow> 't list" where
  "submitted [] = []"
| "submitted (AddTask t # evs) = t # submitted evs"
| "submitted (StartQueue # evs) = submitted evs"
| "submitted (TaskSettles ok # evs) = submitted evs"

fun started_tasks :: "'t exec_event list \<Rightarrow> 't list" where
  "started_tasks [] = []"
| "started_tasks (Started t # h) = t # started_tasks h"
| "started_tasks (Finished t ok # h) = started_tasks h"

text \<open>
  A history in which no two executions overlap: every execution that began has ended
  before the next one begins, only the last may still be going on.
\<close>

fun serial :: "'t exec_event list \<Rightarrow> bool" where
  "serial [] = True"
| "serial [Started t] = True"
| "serial (Started t # Finished t' ok # h) = (t = t' \<and> serial h)"
| "serial (Started t # Started t' # h) = False"
| "serial (Finished t ok # h) = False"

text \<open>The task whose execution a history has begun and not ended.\<close>

definition executing :: "'t exec_event list \<Rightarrow> 't option" where
  "executing h = (case rev h of Started t # _ \<Rightarrow> Some t | _ \<Rightarrow> None)"

text \<open>
  The invariant of the executor: the flag is set exactly while a task is awaited, the
  awaited task is the one the history shows as begun, and the history is serial.
\<close>

definition queue_inv :: "'t TaskQueue \<Rightarrow> bool" where
  "queue_inv q = (draining q = (running q \<noteq> None) \<and> running q = executing (history q)
                   \<and> serial (history q))"

text \<open>Every task the executor has been given: those started, then those pending.\<close>

definition all_tasks :: "'t TaskQueue \<Rightarrow> 't list" where
  "all_tasks q = started_tasks (history q) @ tasks q"

section \<open>GoogleAPI and its handlers\<close>

text \<open>
  The closure \<open>task\<close> a handler builds is determined by the handler and the arguments it
  captures; the bodies of these closures are the task functions above.
\<close>

datatype handler_task =
  GameRequestFund js_string js_string js_string int Date
| GameRequestAdd js_string js_string int "int option" js_string int Date
| Cheer TwitchEventSub_Event_Cheer Date
| BidwarContribute js_string js_string js_string js_string int Date
| BidwarAddEntry js_string js_string
| BidwarAddFunds js_string js_string js_string int "js_string option" Date

text \<open>The two fields of a \<open>GoogleAPI\<close> object that change (lines 52 and 54).\<close>

record 'h GoogleAPI =
  googleSheets :: "'h Future"
  taskQueue :: "handler_task TaskQueue"

definition new_GoogleAPI :: "'h GoogleAPI" where
  "new_GoogleAPI = \<lparr>googleSheets = new_Future, taskQueue = new_TaskQueue\<rparr>"

text \<open>\<open>startup\<close> (lines 61-74) resolves \<open>_googleSheets\<close> with the client it has built.\<close>

definition startup :: "'h \<Rightarrow> 'h GoogleAPI \<Rightarrow> 'h GoogleAPI" where
  "startup sheets api = api\<lparr>googleSheets := resolve sheets (googleSheets api)\<rparr>"

text \<open>
  Every handler ends with \<open>this._taskQueue.addTask(task); this._taskQueue.startQueue();\<close>
  and returns its future.
\<close>

definition handleGameRequestFund ::
  "js_string \<Rightarrow> js_string \<Rightarrow> js_string \<Rightarrow> int \<Rightarrow> Date \<Rightarrow> 'h GoogleAPI \<Rightarrow> 'h GoogleAPI" where
  "handleGameRequestFund respondTo gameName username points timestamp api =
     api\<lparr>taskQueue := startQueue (addTask
        (GameRequestFund respondTo gameName username points timestamp) (taskQueue api))\<rparr>"

definition handleGameRequestAdd ::
  "js_string \<Rightarrow> js_string \<Rightarrow> int \<Rightarrow> int option \<Rightarrow> js_string \<Rightarrow> int \<Rightarrow> Date \<Rightarrow>
     'h GoogleAPI \<Rightarrow> 'h GoogleAPI" where
  "handleGameRequestAdd respondTo gameName gameLengthHours pta username points timestamp api =
     api\<lparr>taskQueue := startQueue (addTask
        (GameRequestAdd respondTo gameName gameLengthHours pta username points timestamp)
        (taskQueue api))\<rparr>"

definition handleCheer ::
  "TwitchEventSub_Event_Cheer \<Rightarrow> Date \<Rightarrow> 'h GoogleAPI \<Rightarrow> 'h GoogleAPI" where
  "handleCheer event created_at api =
     api\<lparr>taskQueue := startQueue (addTask (Cheer event created_at) (taskQueue api))\<rparr>"

definition handleBidwarContribute ::
  "js_string \<Rightarrow> js_string \<Rightarrow> js_string \<Rightarrow> js_string \<Rightarrow> int \<Rightarrow> Date \<Rightarrow>
     'h GoogleAPI \<Rightarrow> 'h GoogleAPI" where
  "handleBidwarContribute respondTo userId username gameName amount timestamp api =
     api\<lparr>taskQueue := startQueue (addTask
        (BidwarContribute respondTo userId username gameName amount timestamp) (taskQueue api))\<rparr>"

definition handleBidwarAddEntry :: "js_string \<Rightarrow> js_string \<Rightarrow> 'h GoogleAPI \<Rightarrow> 'h GoogleAPI" where
  "handleBidwarAddEntry respondTo gameName api =
     api\<lparr>taskQueue := startQueue (addTask (BidwarAddEntry respondTo gameName) (taskQueue api))\<rparr>"

definition handleBidwarAddFunds ::
  "js_string \<Rightarrow> js_string \<Rightarrow> js_string \<Rightarrow> int \<Rightarrow> js_string option \<Rightarrow> Date \<Rightarrow>
     'h GoogleAPI \<Rightarrow> 'h GoogleAPI" where
  "handleBidwarAddFunds respondTo userId username amount source timestamp api =
     api\<lparr>taskQueue := startQueue (addTask
        (BidwarAddFunds respondTo userId username amount source timestamp) (taskQueue api))\<rparr>"

text \<open>
  \<open>handleGameRequestRedeem\<close> (lines 83-97) gives its \<open>HeldTask\<close> a \<open>complete\<close> operation
  that awaits \<open>outcome.complete\<close>, the closure \<open>completeFunding\<close>, directly: it builds no
  task and makes no call on \<open>_taskQueue\<close>, so the \<open>GoogleAPI\<close> object is left as it is and
  the write happens when the confirmation arrives. The update of the redemption that
  follows goes to Twitch and is no part of the ledger.
\<close>

definition heldTask_complete ::
  "'s completion \<Rightarrow> 's remote_env \<Rightarrow> 'h GoogleAPI \<times> 's world \<Rightarrow> 'h GoogleAPI \<times> 's world" where
  "heldTask_complete outcomeComplete env sys =
     (case sys of (api, w) \<Rightarrow> (api, snd (run_completion outcomeComplete env w)))"

text \<open>
  What happens to a \<open>GoogleAPI\<close> object: one of the six handlers is called, or the task
  the executor is awaiting returns or raises.
\<close>

datatype api_event = Call handler_task | Settles bool

fun call_handler :: "handler_task \<Rightarrow> 'h GoogleAPI \<Rightarrow> 'h GoogleAPI" where
  "call_handler (GameRequestFund respondTo gameName username points timestamp) api =
     handleGameRequestFund respondTo gameName username points timestamp api"
| "call_handler (GameRequestAdd respondTo gameName gameLengthHours pta username points timestamp) api =
     handleGameRequestAdd respondTo gameName gameLengthHours pta username points timestamp api"
| "call_handler (Cheer event created_at) api = handleCheer event created_at api"
| "call_handler (BidwarContribute respondTo userId username gameName amount timestamp) api =
     handleBidwarContribute respondTo userId username gameName amount timestamp api"
| "call_handler (BidwarAddEntry respondTo gameName) api = handleBidwarAddEntry respondTo gameName api"
| "call_handler (BidwarAddFunds respondTo userId username amount source timestamp) api =
     handleBidwarAddFunds respondTo userId username amount source timestamp api"

fun api_step :: "'h GoogleAPI \<Rightarrow> api_event \<Rightarrow> 'h GoogleAPI" where
  "api_step api (Call t) = call_handler t api"
| "api_step api (Settles ok) = api\<lparr>taskQueue := task_settles ok (taskQueue api)\<rparr>"

definition api_run :: "api_event list \<Rightarrow> 'h GoogleAPI" where
  "api_run evs = foldl api_step new_GoogleAPI evs"

text \<open>The calls an event makes on the executor of the \<open>GoogleAPI\<close> object.\<close>

fun queue_events :: "api_event \<Rightarrow> handler_task queue_event list" where
  "queue_events (Call t) = [AddTask t, StartQueue]"
| "queue_events (Settles ok) = [TaskSettles ok]"

text \<open>The handler calls of a sequence of events, in order.\<close>

fun called_tasks :: "api_event list \<Rightarrow> handler_task list" where
  "called_tasks [] = []"
| "called_tasks (Call t # evs) = t # called_tasks evs"
| "called_tasks (Settles ok # evs) = called_tasks evs"

section \<open>Held actions and their registry\<close>

text \<open>
  Modelled from the spec: \<open>HeldTask.ts\<close> and the registry behind
  \<open>heldTasksByUserId.addHeldTask\<close> are not among the sources. Following sections 3 and
  4.3 of the specification, a Held Action has a completion operation, a cancellation
  operation, a deadline and a settlement state; the registry maps a key to its active
  Held Action. \<open>complete\<close> and \<open>cancel\<close> look the key up and settle the action found;
  the deadline timer settles its own action as cancelled; each of them first checks that
  the state is still pending, sets it, removes the entry and only then invokes the
  operation. Of the policies the specification allows for a key that already has a
  pending action, registering cancels the old action and replaces it.

  An action is identified by its position in \<open>actions\<close>. The clock is the time of the
  latest event; a timer fires as soon as the clock has reached its deadline, before
  anything else that happens at that time. \<open>executed\<close> lists the operations invoked, each
  with the action it belongs to.
\<close>

datatype settlement = Pending | Completed | Cancelled

datatype held_op = CompletionOp | CancellationOp

record 'k HeldAction =
  key :: 'k
  deadline :: nat
  state :: settlement

record 'k Registry =
  actions :: "'k HeldAction list"
  entries :: "'k \<Rightarrow> nat option"
  clock :: nat
  executed :: "(nat \<times> held_op) list"

definition new_Registry :: "'k Registry" where
  "new_Registry = \<lparr>actions = [], entries = (\<lambda>_. None), clock = 0, executed = []\<rparr>"

fun settled_as :: "held_op \<Rightarrow> settlement" where
  "settled_as CompletionOp = Completed"
| "settled_as CancellationOp = Cancelled"

text \<open>The single-writer settlement: compare the state with pending, set it, then invoke.\<close>

definition settle_action :: "nat \<Rightarrow> held_op \<Rightarrow> 'k Registry \<Rightarrow> 'k Registry" where
  "settle_action i operation r =
     (if i < length (actions r) \<and> state (actions r ! i) = Pending
      then r\<lparr>actions := (actions r)[i := (actions r ! i)\<lparr>state := settled_as operation\<rparr>],
             entries := (if entries r (key (actions r ! i)) = Some i
                         then (entries r)(key (actions r ! i) := None) else entries r),
             executed := executed r @ [(i, operation)]\<rparr>
      else r)"

definition registry_complete :: "'k \<Rightarrow> 'k Registry \<Rightarrow> bool \<times> 'k Registry" where
  "registry_complete k r =
     (case entries r k of
        None \<Rightarrow> (False, r)
      | Some i \<Rightarrow> (True, settle_action i CompletionOp r))"

definition registry_cancel :: "'k \<Rightarrow> 'k Registry \<Rightarrow> bool \<times> 'k Registry" where
  "registry_cancel k r =
     (case entries r k of
        None \<Rightarrow> (False, r)
      | Some i \<Rightarrow> (True, settle_action i CancellationOp r))"

definition registry_register :: "'k \<Rightarrow> nat \<Rightarrow> 'k Registry \<Rightarrow> 'k Registry" where
  "registry_register k timeout r =
     (let r1 = snd (registry_cancel k r)
      in r1\<lparr>actions := actions r1 @ [\<lparr>key = k, deadline = clock r1 + timeout, state = Pending\<rparr>],
             entries := (entries r1)(k \<mapsto> length (actions r1))\<rparr>)"

text \<open>The actions whose timers have fired by time \<open>t\<close>, and the passing of time up to \<open>t\<close>.\<close>

definition due :: "nat \<Rightarrow> 'k Registry \<Rightarrow> nat list" where
  "due t r = filter (\<lambda>i. deadline (actions r ! i) \<le> t) [0..<length (actions r)]"

definition advance :: "nat \<Rightarrow> 'k Registry \<Rightarrow> 'k Registry" where
  "advance t r = (fold (\<lambda>i. settle_action i CancellationOp) (due t r) r)\<lparr>clock := max (clock r) t\<rparr>"

datatype 'k registry_call = Register 'k nat | Complete 'k | Cancel 'k | Wait

fun perform_call :: "'k registry_call \<Rightarrow> 'k Registry \<Rightarrow> 'k Registry" where
  "perform_call (Register k timeout) r = registry_register k timeout r"
| "perform_call (Complete k) r = snd (registry_complete k r)"
| "perform_call (Cancel k) r = snd (registry_cancel k r)"
| "perform_call Wait r = r"

text \<open>An event is a call with the time at which it is made.\<close>

fun registry_step :: "'k Registry \<Rightarrow> nat \<times> 'k registry_call \<Rightarrow> 'k Registry" where
  "registry_step r (t, c) = perform_call c (advance t r)"

definition registry_run :: "(nat \<times> 'k registry_call) list \<Rightarrow> 'k Registry" where
  "registry_run evs = foldl registry_step new_Registry evs"

text \<open>The operations invoked for the action \<open>i\<close>.\<close>

definition ops_of :: "nat \<Rightarrow> (nat \<times> held_op) list \<Rightarrow> held_op list" where
  "ops_of i xs = map snd (filter (\<lambda>x. fst x = i) xs)"

text \<open>The settlement state of the action \<open>i\<close>, if it has been registered.\<close>

definition state_of :: "nat \<Rightarrow> 'k Registry \<Rightarrow> settlement option" where
  "state_of i r = (if i < length (actions r) then Some (state (actions r ! i)) else None)"

text \<open>The operations that a settlement state accounts for.\<close>

fun ops_for :: "settlement \<Rightarrow> held_op list" where
  "ops_for Pending = []"
| "ops_for Completed = [CompletionOp]"
| "ops_for Cancelled = [CancellationOp]"

text \<open>
  The invariants of the registry: the operations invoked for an action are exactly those
  its state accounts for, and an entry of the registry leads to an action of that key.
\<close>

definition ops_accounted :: "'k Registry \<Rightarrow> bool" where
  "ops_accounted r = (\<forall>i. ops_of i (executed r) = (case state_of i r of None \<Rightarrow> [] | Some s \<Rightarrow> ops_for s))"

definition entries_valid :: "'k Registry \<Rightarrow> bool" where
  "entries_valid r = (\<forall>k j. entries r k = Some j \<longrightarrow> j < length (actions r) \<and> key (actions r ! j) = k)"

text \<open>What \<open>complete\<close> and \<open>cancel\<close> do to the registry, without the reported result.\<close>

definition lookup_settle :: "'k \<Rightarrow> held_op \<Rightarrow> 'k Registry \<Rightarrow> 'k Registry" where
  "lookup_settle k operation r =
     (case entries r k of None \<Rightarrow> r | Some j \<Rightarrow> settle_action j operation r)"

text \<open>
  The Held Action of \<open>handleGameRequestRedeem\<close> (lines 84-96): registered under the
  redeeming user's id with a timeout of one minute, in milliseconds.
\<close>

definition timeoutMinutes :: nat where
  "timeoutMinutes = 1"

definition redeem_registration :: "js_string \<Rightarrow> js_string registry_call" where
  "redeem_registration user_id' = Register user_id' (timeoutMinutes * 60 * 1000)"

section \<open>Properties of the chat output\<close>

lemma length_tooLongMessage: "length tooLongMessage = 66"
  by (simp add: tooLongMessage_def js_lit_def)

lemma sent_chat:
  "sent (chat recipient msg b) =
     sent b @ [(recipient, if length msg > maxChatMessageLength then tooLongMessage else msg)]"
  by (simp add: chat_def super_chat_def console_log_def)

text \<open>
  Claim C10. For every recipient and message, \<open>chat\<close> makes exactly one call to the
  underlying chat output; the text of that call is the message itself if and only if
  the message has at most 500 code units, and it is the fixed placeholder whenever the
  message is longer, so that an over-length text is never among the texts sent.
\<close>

theorem chat_forwards_or_replaces:
  "maxChatMessageLength = 500
   \<and> (\<exists>actualMessage. sent (chat recipient msg b) = sent b @ [(recipient, actualMessage)]
        \<and> (actualMessage = msg) = (length msg \<le> 500)
        \<and> (500 < length msg \<longrightarrow>
              actualMessage = js_lit ''<Message was too long. Please file a bug report with the owner :)>''
              \<and> (recipient, msg) \<notin> set (sent (chat recipient msg b)) - set (sent b)))"
proof -
  let ?a = "if length msg > maxChatMessageLength then tooLongMessage else msg"
  have eq: "(?a = msg) = (length msg \<le> 500)"
  proof (cases "length msg > maxChatMessageLength")
    case True
    then have "length ?a = 66" by (simp add: length_tooLongMessage)
    with True show ?thesis by (auto simp: maxChatMessageLength_def)
  next
    case False
    then show ?thesis by (simp add: maxChatMessageLength_def)
  qed
  have long: "500 < length msg \<Longrightarrow> ?a = tooLongMessage \<and> tooLongMessage \<noteq> msg"
    using length_tooLongMessage by (auto simp: maxChatMessageLength_def)
  show ?thesis
    apply (rule conjI, simp add: maxChatMessageLength_def)
    apply (rule exI [of _ ?a])
    using eq long by (auto simp: sent_chat tooLongMessage_def)
qed

theorem chat_forwards_or_replaces_witness:
  "sent (chat (js_lit ''#chan'') (replicate 501 65) \<lparr>sent = [], console = []\<rparr>)
     = [(js_lit ''#chan'', tooLongMessage)]
   \<and> sent (chat (js_lit ''#chan'') (replicate 500 65) \<lparr>sent = [], console = []\<rparr>)
     = [(js_lit ''#chan'', replicate 500 65)]"
  using chat_forwards_or_replaces [of "js_lit ''#chan''" "replicate 501 65" "\<lparr>sent = [], console = []\<rparr>"]
    chat_forwards_or_replaces [of "js_lit ''#chan''" "replicate 500 65" "\<lparr>sent = [], console = []\<rparr>"]
  by (auto simp: tooLongMessage_def)

section \<open>Properties of the spreadsheet tasks\<close>

subsection \<open>What each step of a task changes\<close>

lemma say_fields [simp]:
  "calls (say r m w) = calls w" "thrown (say r m w) = thrown w"
  "bot (say r m w) = chat r m (bot w)"
  by (simp_all add: say_def)

lemma say_future [simp]: "future (say r m st) = future st"
  by (simp add: say_def)

lemma log_error_fields [simp]:
  "calls (log_error e w) = calls w" "thrown (log_error e w) = thrown w"
  "sent (bot (log_error e w)) = sent (bot w)"
  by (simp_all add: log_error_def console_log_def)

lemma log_error_future [simp]: "future (log_error e st) = future st"
  by (simp add: log_error_def)

lemma called_fields [simp]:
  "calls (called c w) = calls w @ [c]" "thrown (called c w) = thrown w"
  "bot (called c w) = bot w"
  by (simp_all add: called_def)

lemma called_future [simp]: "future (called c st) = future st"
  by (simp add: called_def)

lemma throw_fields [simp]:
  "calls (throw e w) = calls w" "thrown (throw e w) = Some e"
  "bot (throw e w) = bot w"
  by (simp_all add: throw_def)

lemma throw_future [simp]: "future (throw e st) = future st"
  by (simp add: throw_def)

lemma future_resolve_fields [simp]:
  "calls (future_resolve v st) = calls st" "thrown (future_resolve v st) = thrown st"
  "bot (future_resolve v st) = bot st"
  "future (future_resolve v st) = resolve v (future st)"
  by (simp_all add: future_resolve_def)

lemma settled_resolve:
  "settled (resolve v f) = (case settled f of None \<Rightarrow> Some v | Some u \<Rightarrow> Some u)"
  by (simp add: resolve_def settle_def split: option.splits)

lemma task_start_fields [simp]:
  "bot (task_start b cs) = b" "calls (task_start b cs) = cs" "thrown (task_start b cs) = None"
  "settled (future (task_start b cs)) = None"
  by (simp_all add: task_start_def new_Future_def)

lemma completeFunding_sheet:
  "fst (completeFunding ops respondTo gameName username points timestamp env sheet w) =
     addPointsToEntry ops sheet username gameName points timestamp"
  by (simp add: completeFunding_def Let_def)

lemma completeFunding_calls:
  "calls (snd (completeFunding ops respondTo gameName username points timestamp env sheet w)) =
     calls w @ [PushSheet incentiveSheetId gameRequestSubSheet
                  (addPointsToEntry ops sheet username gameName points timestamp)]"
  by (simp add: completeFunding_def Let_def split: option.splits)

lemma completeFunding_thrown:
  "thrown (snd (completeFunding ops respondTo gameName username points timestamp env sheet w)) =
     (case push_result env (addPointsToEntry ops sheet username gameName points timestamp) of
        Some e \<Rightarrow> Some e | None \<Rightarrow> thrown w)"
  by (simp add: completeFunding_def Let_def split: option.splits)

lemma completeFunding_future:
  "future (snd (completeFunding ops respondTo gameName username points timestamp env sheet st)) =
     future st"
  by (simp add: completeFunding_def Let_def split: option.splits)

lemma completeFunding_sent:
  "push_result env (addPointsToEntry ops sheet username gameName points timestamp) = None \<Longrightarrow>
   \<exists>m. sent (bot (snd (completeFunding ops respondTo gameName username points timestamp env sheet
                          w))) =
     sent (bot w) @ [(respondTo, m)]"
  by (simp add: completeFunding_def Let_def sent_chat)

lemma pushes_append [simp]: "pushes (xs @ ys) = pushes xs @ pushes ys"
  by (simp add: pushes_def)

lemma pushes_simps [simp]:
  "pushes [] = []"
  "pushes (ReadSheet i s # cs) = pushes cs"
  "pushes (PushSheet i s x # cs) = PushSheet i s x # pushes cs"
  by (simp_all add: pushes_def)

subsection \<open>The small ledger\<close>

lemma example_find [simp]: "findEntry example_ops [(k, e)] k = Some e"
  by (simp add: example_ops_def)

lemma example_addPoints [simp]:
  "addPointsToEntry example_ops [(k, e)] u k p t = [(k, e\<lparr>pointsContributed := pointsContributed e + p\<rparr>)]"
  by (simp add: example_ops_def)

lemma reliable_fields [simp]:
  "read_result (reliable s) = Inr s" "push_result (reliable s) x = None"
  by (simp_all add: reliable_def)

subsection \<open>Funding a game request\<close>

text \<open>
  Claim C1 says that a contribution which would overfund the goal is always held for
  confirmation. The code asks for confirmation only when the entry is not overfunded
  already: with 10 of 5 points contributed, one more point would overfund the goal, yet
  the task writes the sheet and resolves \<open>Fulfilled\<close>.
\<close>

theorem fund_already_overfunded_counterexample:
  "pointsContributed \<lparr>pointsContributed = 10, pointsToActivate = 5\<rparr> + 1
      > pointsToActivate \<lparr>pointsContributed = 10, pointsToActivate = 5\<rparr>
   \<and> findEntry example_ops [(js_lit ''Tetris'', \<lparr>pointsContributed = 10, pointsToActivate = 5\<rparr>)]
        (js_lit ''Tetris'') = Some \<lparr>pointsContributed = 10, pointsToActivate = 5\<rparr>
   \<and> map_option type (settled (future
        (fund_task example_ops
           (reliable [(js_lit ''Tetris'', \<lparr>pointsContributed = 10, pointsToActivate = 5\<rparr>)])
           (js_lit ''#chan'') (js_lit ''Tetris'') (js_lit ''bob'') 1 0
           (task_start quiet [])))) = Some Fulfilled
   \<and> Fulfilled \<noteq> PendingConfirmation"
  by (simp add: fund_task_def Let_def settled_resolve completeFunding_thrown completeFunding_future)

text \<open>
  Running the closure a second time works on the sheet the first run has left: the
  points are added again, as they are in the source, where the closure keeps the one
  spreadsheet object.
\<close>

lemma completion_first_run:
  "run_completion (sheet, completeFunding ops respondTo gameName username points timestamp) env w =
     ((addPointsToEntry ops sheet username gameName points timestamp,
       completeFunding ops respondTo gameName username points timestamp),
      snd (completeFunding ops respondTo gameName username points timestamp env sheet w))"
  by (simp add: run_completion_def completeFunding_def Let_def)

lemma completion_second_run:
  "pushes (calls (snd (run_completion
      (fst (run_completion
              (sheet, completeFunding ops respondTo gameName username points timestamp) env w))
      env' w'))) =
   pushes (calls w') @
     [PushSheet incentiveSheetId gameRequestSubSheet
        (addPointsToEntry ops (addPointsToEntry ops sheet username gameName points timestamp)
           username gameName points timestamp)]"
  by (simp add: completion_first_run completeFunding_calls)

lemma safe_difference:
  assumes "is_safe_integer p" and "c \<le> a" and "a < c + p"
  shows "is_safe_integer (c + p - a)"
  using assms by (simp add: is_safe_integer_def)

text \<open>
  Claim C1, amended. For a contribution to an entry that exists, with point counts that
  are safe integers and whose sum is one: if the entry is not yet overfunded and the
  points would overfund it, the task resolves \<open>PendingConfirmation\<close> with
  \<open>overfundAmount = pointsContributed + points - pointsToActivate\<close>, writes nothing and
  says nothing, and the write is what the supplied \<open>complete\<close> operation does when it is
  first run; in every other case the task writes the sheet with the points added at once
  and, the write succeeding, resolves \<open>Fulfilled\<close>.
\<close>

theorem fund_confirmation_or_immediate:
  assumes "read_result env = Inr sheet"
    and "findEntry ops sheet gameName = Some e"
    and "is_safe_integer (pointsContributed e)"
    and "is_safe_integer (pointsToActivate e)"
    and "is_safe_integer points"
    and "is_safe_integer (pointsContributed e + points)"
  shows "(pointsContributed e \<le> pointsToActivate e \<and> pointsToActivate e < pointsContributed e + points \<longrightarrow>
           settled (future (fund_task ops env respondTo gameName username points timestamp (task_start b cs))) =
             Some \<lparr>type = PendingConfirmation,
                   overfundAmount = Some (pointsContributed e + points - pointsToActivate e),
                   complete = Some (sheet, completeFunding ops respondTo gameName username points
                                             timestamp)\<rparr>
           \<and> is_safe_integer (pointsContributed e + points - pointsToActivate e)
           \<and> pushes (calls (fund_task ops env respondTo gameName username points timestamp (task_start b cs))) = pushes cs
           \<and> bot (fund_task ops env respondTo gameName username points timestamp (task_start b cs)) = b
           \<and> thrown (fund_task ops env respondTo gameName username points timestamp (task_start b cs)) = None
           \<and> pushes (calls (snd (run_completion
                 (sheet, completeFunding ops respondTo gameName username points timestamp) env' w))) =
               pushes (calls w) @ [PushSheet incentiveSheetId gameRequestSubSheet
                  (addPointsToEntry ops sheet username gameName points timestamp)])
       \<and> (\<not> (pointsContributed e \<le> pointsToActivate e \<and> pointsToActivate e < pointsContributed e + points) \<longrightarrow>
           pushes (calls (fund_task ops env respondTo gameName username points timestamp (task_start b cs))) =
             pushes cs @ [PushSheet incentiveSheetId gameRequestSubSheet
                  (addPointsToEntry ops sheet username gameName points timestamp)]
           \<and> (push_result env (addPointsToEntry ops sheet username gameName points timestamp) = None \<longrightarrow>
               settled (future (fund_task ops env respondTo gameName username points timestamp (task_start b cs))) =
                 Some \<lparr>type = Fulfilled, overfundAmount = None, complete = None\<rparr>
               \<and> thrown (fund_task ops env respondTo gameName username points timestamp (task_start b cs)) = None))"
proof -
  have diff: "is_safe_integer (pointsContributed e + points - pointsToActivate e)"
    if "pointsContributed e \<le> pointsToActivate e"
      and "pointsToActivate e < pointsContributed e + points"
    using assms(5) that by (rule safe_difference)
  show ?thesis
    using assms(1,2) diff
    by (auto simp add: fund_task_def Let_def settled_resolve completeFunding_thrown
          completeFunding_future completeFunding_calls completion_first_run
          split: option.splits)
qed

lemma example_bank_fields [simp]:
  "addBitsToUser example_bank s u n a t src = s @ [(u, a)]"
  "spendBitsOnEntry example_bank s u n g a t = (\<lparr>success = True, message = None\<rparr>, s @ [(u, - a)])"
  "bidwar_addEntry example_bank s g = (\<lparr>success = True, message = None\<rparr>, s)"
  by (simp_all add: example_bank_def)

lemma unreadable_fields [simp]:
  "read_result unreadable = Inl (Err (js_lit ''read failed''))"
  by (simp add: unreadable_def)

theorem fund_confirmation_or_immediate_witness:
  "settled (future (fund_task example_ops
       (reliable [(js_lit ''Tetris'', \<lparr>pointsContributed = 3, pointsToActivate = 5\<rparr>)])
       (js_lit ''#chan'') (js_lit ''Tetris'') (js_lit ''bob'') 4 0 (task_start quiet []))) =
     Some \<lparr>type = PendingConfirmation, overfundAmount = Some 2,
           complete = Some
             ([(js_lit ''Tetris'', \<lparr>pointsContributed = 3, pointsToActivate = 5\<rparr>)],
              completeFunding example_ops (js_lit ''#chan'') (js_lit ''Tetris'') (js_lit ''bob'')
                4 0)\<rparr>
   \<and> pushes (calls (fund_task example_ops
       (reliable [(js_lit ''Tetris'', \<lparr>pointsContributed = 3, pointsToActivate = 5\<rparr>)])
       (js_lit ''#chan'') (js_lit ''Tetris'') (js_lit ''bob'') 4 0 (task_start quiet []))) = []
   \<and> settled (future (fund_task example_ops
       (reliable [(js_lit ''Tetris'', \<lparr>pointsContributed = 3, pointsToActivate = 5\<rparr>)])
       (js_lit ''#chan'') (js_lit ''Tetris'') (js_lit ''bob'') 2 0 (task_start quiet []))) =
     Some \<lparr>type = Fulfilled, overfundAmount = None, complete = None\<rparr>
   \<and> pushes (calls (fund_task example_ops
       (reliable [(js_lit ''Tetris'', \<lparr>pointsContributed = 3, pointsToActivate = 5\<rparr>)])
       (js_lit ''#chan'') (js_lit ''Tetris'') (js_lit ''bob'') 2 0 (task_start quiet []))) =
     [PushSheet incentiveSheetId gameRequestSubSheet
        [(js_lit ''Tetris'', \<lparr>pointsContributed = 5, pointsToActivate = 5\<rparr>)]]"
  using fund_confirmation_or_immediate
      [where env = "reliable [(js_lit ''Tetris'', \<lparr>pointsContributed = 3, pointsToActivate = 5\<rparr>)]"
         and sheet = "[(js_lit ''Tetris'', \<lparr>pointsContributed = 3, pointsToActivate = 5\<rparr>)]"
         and ops = example_ops and gameName = "js_lit ''Tetris''"
         and e = "\<lparr>pointsContributed = 3, pointsToActivate = 5\<rparr>"
         and points = 4 and respondTo = "js_lit ''#chan''" and username = "js_lit ''bob''"
         and timestamp = 0 and b = quiet and cs = "[]"
         and env' = "reliable []" and w = "\<lparr>bot = quiet, calls = [], thrown = None\<rparr>"]
    fund_confirmation_or_immediate
      [where env = "reliable [(js_lit ''Tetris'', \<lparr>pointsContributed = 3, pointsToActivate = 5\<rparr>)]"
         and sheet = "[(js_lit ''Tetris'', \<lparr>pointsContributed = 3, pointsToActivate = 5\<rparr>)]"
         and ops = example_ops and gameName = "js_lit ''Tetris''"
         and e = "\<lparr>pointsContributed = 3, pointsToActivate = 5\<rparr>"
         and points = 2 and respondTo = "js_lit ''#chan''" and username = "js_lit ''bob''"
         and timestamp = 0 and b = quiet and cs = "[]"
         and env' = "reliable []" and w = "\<lparr>bot = quiet, calls = [], thrown = None\<rparr>"]
  by (simp add: is_safe_integer_def MAX_SAFE_INTEGER_def)

text \<open>
  Claim C8. When the entry is already overfunded, a contribution of any size (so every
  positive one) is written to the sheet at once, the outcome is never
  \<open>PendingConfirmation\<close>, and it is \<open>Fulfilled\<close> as soon as the write succeeds.
  For every entry, \<open>PendingConfirmation\<close> is the outcome only when the contribution takes
  the entry from not overfunded to overfunded.
\<close>

theorem fund_overfunded_entry_applies_at_once:
  assumes "read_result env = Inr sheet"
    and "findEntry ops sheet gameName = Some e"
  shows "(pointsToActivate e < pointsContributed e \<longrightarrow>
            calls (fund_task ops env respondTo gameName username points timestamp (task_start b cs)) =
              cs @ [ReadSheet incentiveSheetId gameRequestSubSheet,
                    PushSheet incentiveSheetId gameRequestSubSheet
                      (addPointsToEntry ops sheet username gameName points timestamp)]
            \<and> map_option type (settled (future
                 (fund_task ops env respondTo gameName username points timestamp (task_start b cs))))
                \<noteq> Some PendingConfirmation
            \<and> (push_result env (addPointsToEntry ops sheet username gameName points timestamp) = None \<longrightarrow>
                 settled (future (fund_task ops env respondTo gameName username points timestamp
                                    (task_start b cs))) =
                   Some \<lparr>type = Fulfilled, overfundAmount = None, complete = None\<rparr>
                 \<and> thrown (fund_task ops env respondTo gameName username points timestamp
                             (task_start b cs)) = None))
       \<and> (map_option type (settled (future
              (fund_task ops env respondTo gameName username points timestamp (task_start b cs))))
             = Some PendingConfirmation \<longrightarrow>
            pointsContributed e \<le> pointsToActivate e
            \<and> pointsToActivate e < pointsContributed e + points)"
  using assms
  by (auto simp add: fund_task_def Let_def settled_resolve completeFunding_thrown
        completeFunding_future completeFunding_calls split: option.splits)

theorem fund_overfunded_entry_applies_at_once_witness:
  "calls (fund_task example_ops
       (reliable [(js_lit ''Tetris'', \<lparr>pointsContributed = 10, pointsToActivate = 5\<rparr>)])
       (js_lit ''#chan'') (js_lit ''Tetris'') (js_lit ''bob'') 1 0 (task_start quiet [])) =
     [ReadSheet incentiveSheetId gameRequestSubSheet,
      PushSheet incentiveSheetId gameRequestSubSheet
        [(js_lit ''Tetris'', \<lparr>pointsContributed = 11, pointsToActivate = 5\<rparr>)]]
   \<and> settled (future (fund_task example_ops
       (reliable [(js_lit ''Tetris'', \<lparr>pointsContributed = 10, pointsToActivate = 5\<rparr>)])
       (js_lit ''#chan'') (js_lit ''Tetris'') (js_lit ''bob'') 1 0 (task_start quiet []))) =
     Some \<lparr>type = Fulfilled, overfundAmount = None, complete = None\<rparr>"
  using fund_overfunded_entry_applies_at_once
      [where env = "reliable [(js_lit ''Tetris'', \<lparr>pointsContributed = 10, pointsToActivate = 5\<rparr>)]"
         and sheet = "[(js_lit ''Tetris'', \<lparr>pointsContributed = 10, pointsToActivate = 5\<rparr>)]"
         and ops = example_ops and gameName = "js_lit ''Tetris''"
         and e = "\<lparr>pointsContributed = 10, pointsToActivate = 5\<rparr>"
         and points = 1 and respondTo = "js_lit ''#chan''" and username = "js_lit ''bob''"
         and timestamp = 0 and b = quiet and cs = "[]"]
  by simp

subsection \<open>Requests that cannot be completed\<close>

text \<open>
  Claim C6. When \<open>handleGameRequestFund\<close> finds no entry for the game, its task sends one
  chat message to \<open>respondTo\<close>, writes nothing to the remote sheet and resolves
  \<open>Unfulfilled\<close>; when the read fails in \<open>handleGameRequestAdd\<close>, or the game is already
  present, its task sends one chat message to \<open>respondTo\<close> and writes nothing.
\<close>

theorem game_request_failure_is_reported:
  "(read_result env = Inr sheet \<and> findEntry ops sheet gameName = None \<longrightarrow>
      (\<exists>text. sent (bot (fund_task ops env respondTo gameName username points timestamp
                              (task_start b cs))) = sent b @ [(respondTo, text)])
      \<and> pushes (calls (fund_task ops env respondTo gameName username points timestamp
                          (task_start b cs))) = pushes cs
      \<and> settled (future (fund_task ops env respondTo gameName username points timestamp
                            (task_start b cs))) =
            Some \<lparr>type = Unfulfilled, overfundAmount = None, complete = None\<rparr>)
   \<and> (read_result env = Inl e \<longrightarrow>
      sent (bot (add_task ops env respondTo gameName gameLengthHours pta username points timestamp
                   (task_start b cs))) =
        sent b @ [(respondTo, js_lit ''Failed to read game request spreadsheet. No data altered.'')]
      \<and> pushes (calls (add_task ops env respondTo gameName gameLengthHours pta username points
                          timestamp (task_start b cs))) = pushes cs)
   \<and> (read_result env = Inr sheet \<and> findEntry ops sheet gameName = Some existing \<longrightarrow>
      sent (bot (add_task ops env respondTo gameName gameLengthHours pta username points timestamp
                   (task_start b cs))) =
        sent b @ [(respondTo, js_lit ''Game request already present in spreadsheet.'')]
      \<and> pushes (calls (add_task ops env respondTo gameName gameLengthHours pta username points
                          timestamp (task_start b cs))) = pushes cs)"
  by (simp add: fund_task_def add_task_def Let_def settled_resolve sent_chat
        maxChatMessageLength_def js_lit_def)

lemma map_of_empty_find [simp]: "findEntry example_ops [] k = None"
  by (simp add: example_ops_def)

theorem game_request_failure_is_reported_witness:
  "settled (future (fund_task example_ops (reliable []) (js_lit ''#chan'') (js_lit ''Tetris'')
                      (js_lit ''bob'') 4 0 (task_start quiet []))) =
     Some \<lparr>type = Unfulfilled, overfundAmount = None, complete = None\<rparr>
   \<and> pushes (calls (fund_task example_ops (reliable []) (js_lit ''#chan'') (js_lit ''Tetris'')
                      (js_lit ''bob'') 4 0 (task_start quiet []))) = []
   \<and> sent (bot (add_task example_ops unreadable (js_lit ''#chan'') (js_lit ''Tetris'') 2 None
                   (js_lit ''bob'') 4 0 (task_start quiet []))) =
       [(js_lit ''#chan'', js_lit ''Failed to read game request spreadsheet. No data altered.'')]
   \<and> sent (bot (add_task example_ops
                   (reliable [(js_lit ''Tetris'', \<lparr>pointsContributed = 3, pointsToActivate = 5\<rparr>)])
                   (js_lit ''#chan'') (js_lit ''Tetris'') 2 None
                   (js_lit ''bob'') 4 0 (task_start quiet []))) =
       [(js_lit ''#chan'', js_lit ''Game request already present in spreadsheet.'')]"
  using game_request_failure_is_reported
      [where env = "reliable []" and sheet = "[]" and ops = example_ops
         and gameName = "js_lit ''Tetris''" and respondTo = "js_lit ''#chan''"
         and username = "js_lit ''bob''" and points = 4 and timestamp = 0 and b = quiet
         and cs = "[]" and e = "Err []" and gameLengthHours = 2 and pta = None
         and existing = "\<lparr>pointsContributed = 3, pointsToActivate = 5\<rparr>"]
    game_request_failure_is_reported
      [where env = unreadable and sheet = "[]" and ops = example_ops
         and gameName = "js_lit ''Tetris''" and respondTo = "js_lit ''#chan''"
         and username = "js_lit ''bob''" and points = 4 and timestamp = 0 and b = quiet
         and cs = "[]" and e = "Err (js_lit ''read failed'')" and gameLengthHours = 2 and pta = None
         and existing = "\<lparr>pointsContributed = 3, pointsToActivate = 5\<rparr>"]
    game_request_failure_is_reported
      [where env = "reliable [(js_lit ''Tetris'', \<lparr>pointsContributed = 3, pointsToActivate = 5\<rparr>)]"
         and sheet = "[(js_lit ''Tetris'', \<lparr>pointsContributed = 3, pointsToActivate = 5\<rparr>)]"
         and ops = example_ops
         and gameName = "js_lit ''Tetris''" and respondTo = "js_lit ''#chan''"
         and username = "js_lit ''bob''" and points = 4 and timestamp = 0 and b = quiet
         and cs = "[]" and e = "Err []" and gameLengthHours = 2 and pta = None
         and existing = "\<lparr>pointsContributed = 3, pointsToActivate = 5\<rparr>"]
  by (simp add: quiet_def)

subsection \<open>Cheers\<close>

text \<open>
  Claim C9. For a cheer that is anonymous or carries no user id or no user name, the task
  of \<open>handleCheer\<close> makes no call to the remote document, neither a read nor a write, says
  nothing and throws nothing.
\<close>

theorem cheer_without_user_touches_nothing:
  "is_anonymous event \<or> user_id event = None \<or> user_name event = None \<Longrightarrow>
   calls (cheer_task ops env event created_at st) = calls st
   \<and> bot (cheer_task ops env event created_at st) = bot st
   \<and> thrown (cheer_task ops env event created_at st) = thrown st"
  by (auto simp add: cheer_task_def split: option.splits)

theorem cheer_without_user_touches_nothing_witness:
  "calls (cheer_task example_bank (reliable [])
            \<lparr>is_anonymous = True, user_id = Some (js_lit ''42''), user_name = Some (js_lit ''bob''),
             bits = 100\<rparr> 0 (task_start quiet [])) = []
   \<and> calls (cheer_task example_bank (reliable [])
            \<lparr>is_anonymous = False, user_id = None, user_name = Some (js_lit ''bob''),
             bits = 100\<rparr> 0 (task_start quiet [])) = []
   \<and> calls (cheer_task example_bank (reliable [])
            \<lparr>is_anonymous = False, user_id = Some (js_lit ''42''), user_name = None,
             bits = 100\<rparr> 0 (task_start quiet [])) = []"
  using cheer_without_user_touches_nothing
      [where event = "\<lparr>is_anonymous = True, user_id = Some (js_lit ''42''),
                       user_name = Some (js_lit ''bob''), bits = 100\<rparr>"
         and ops = example_bank and env = "reliable []" and created_at = 0
         and st = "task_start quiet []"]
    cheer_without_user_touches_nothing
      [where event = "\<lparr>is_anonymous = False, user_id = None,
                       user_name = Some (js_lit ''bob''), bits = 100\<rparr>"
         and ops = example_bank and env = "reliable []" and created_at = 0
         and st = "task_start quiet []"]
    cheer_without_user_touches_nothing
      [where event = "\<lparr>is_anonymous = False, user_id = Some (js_lit ''42''),
                       user_name = None, bits = 100\<rparr>"
         and ops = example_bank and env = "reliable []" and created_at = 0
         and st = "task_start quiet []"]
  by simp

subsection \<open>The futures the handlers return\<close>

lemma contribute_task_future:
  "future (contribute_task ops env respondTo userId username gameName amount timestamp st) = future st"
  by (simp add: contribute_task_def Let_def split: sum.splits option.splits prod.splits)

lemma addEntry_task_future:
  "future (addEntry_task ops env respondTo gameName st) = future st"
  by (simp add: addEntry_task_def Let_def split: sum.splits option.splits prod.splits)

lemma addFunds_task_future:
  "future (addFunds_task ops env respondTo userId username amount source timestamp st) = future st"
  by (simp add: addFunds_task_def Let_def split: sum.splits option.splits prod.splits)

text \<open>
  Claim C4 asks that the returned \<open>Future\<close> be settled whenever the task has run to
  completion. The tasks of \<open>handleBidwarContribute\<close>, \<open>handleBidwarAddEntry\<close> and
  \<open>handleBidwarAddFunds\<close> never settle it, whatever the remote answers; in particular a
  contribution that is read, written and acknowledged in chat without any error leaves
  the \<open>Future\<close> pending, and so does a cheer of a known user.
\<close>

theorem bidwar_tasks_leave_future_pending:
  "\<not> future_settled (contribute_task ops env respondTo userId username gameName amount timestamp
                        (task_start b cs))
   \<and> \<not> future_settled (addEntry_task ops env respondTo gameName (task_start b cs))
   \<and> \<not> future_settled (addFunds_task ops env respondTo userId username amount source timestamp
                          (task_start b cs))
   \<and> thrown (contribute_task example_bank (reliable []) (js_lit ''#chan'') (js_lit ''42'')
               (js_lit ''bob'') (js_lit ''Tetris'') 100 0 (task_start quiet [])) = None
   \<and> calls (contribute_task example_bank (reliable []) (js_lit ''#chan'') (js_lit ''42'')
               (js_lit ''bob'') (js_lit ''Tetris'') 100 0 (task_start quiet [])) =
       [ReadSheet incentiveSheetId bidwarSubSheet,
        PushSheet incentiveSheetId bidwarSubSheet [(js_lit ''42'', - 100)]]
   \<and> sent (bot (contribute_task example_bank (reliable []) (js_lit ''#chan'') (js_lit ''42'')
               (js_lit ''bob'') (js_lit ''Tetris'') 100 0 (task_start quiet []))) =
       [(js_lit ''#chan'', js_lit ''@bob, your bits were successfully contributed to Tetris.'')]
   \<and> thrown (cheer_task example_bank (reliable [])
               \<lparr>is_anonymous = False, user_id = Some (js_lit ''42''),
                user_name = Some (js_lit ''bob''), bits = 100\<rparr> 0 (task_start quiet [])) = None
   \<and> \<not> future_settled (cheer_task example_bank (reliable [])
               \<lparr>is_anonymous = False, user_id = Some (js_lit ''42''),
                user_name = Some (js_lit ''bob''), bits = 100\<rparr> 0 (task_start quiet []))"
  by (simp add: future_settled_def contribute_task_future addEntry_task_future addFunds_task_future)
     (simp add: contribute_task_def cheer_task_def Let_def sent_chat maxChatMessageLength_def
        js_lit_def quiet_def)

section \<open>Properties of the serialized task executor\<close>

lemma executing_Nil [simp]: "executing [] = None"
  by (simp add: executing_def)

lemma executing_snoc [simp]:
  "executing (h @ [Started t]) = Some t" "executing (h @ [Finished t ok]) = None"
  by (simp_all add: executing_def)

lemma executing_Cons:
  "executing (e # h) = (if h = [] then (case e of Started t \<Rightarrow> Some t | Finished t ok \<Rightarrow> None)
                        else executing h)"
  by (cases h rule: rev_cases; cases e) (auto simp: executing_def split: exec_event.splits list.splits)

lemma serial_snoc_Started: "serial h \<Longrightarrow> executing h = None \<Longrightarrow> serial (h @ [Started t])"
  by (induction h rule: serial.induct) (auto simp: executing_Cons split: if_splits)

lemma serial_snoc_Finished: "serial h \<Longrightarrow> executing h = Some t \<Longrightarrow> serial (h @ [Finished t ok])"
  by (induction h rule: serial.induct) (auto simp: executing_Cons split: if_splits)

lemma started_tasks_append [simp]:
  "started_tasks (h @ h') = started_tasks h @ started_tasks h'"
  by (induction h rule: started_tasks.induct) auto

lemma submitted_append [simp]: "submitted (evs @ evs') = submitted evs @ submitted evs'"
  by (induction evs rule: submitted.induct) auto

lemma queue_inv_new: "queue_inv new_TaskQueue"
  by (simp add: queue_inv_def new_TaskQueue_def)

lemma queue_inv_drain_next:
  "serial (history q) \<Longrightarrow> executing (history q) = None \<Longrightarrow> draining q \<Longrightarrow> queue_inv (drain_next q)"
  by (auto simp: queue_inv_def drain_next_def serial_snoc_Started split: list.splits)

lemma queue_inv_step: "queue_inv q \<Longrightarrow> queue_inv (queue_step q e)"
proof (cases e)
  case (AddTask t)
  assume "queue_inv q"
  then show ?thesis using AddTask by (simp add: queue_inv_def addTask_def)
next
  case StartQueue
  assume inv: "queue_inv q"
  show ?thesis
  proof (cases "draining q")
    case True
    with inv StartQueue show ?thesis by (simp add: startQueue_def)
  next
    case False
    with inv have "queue_inv (drain_next (q\<lparr>draining := True\<rparr>))"
      by (intro queue_inv_drain_next) (auto simp: queue_inv_def)
    with False StartQueue show ?thesis by (simp add: startQueue_def)
  qed
next
  case (TaskSettles ok)
  assume inv: "queue_inv q"
  show ?thesis
  proof (cases "running q")
    case None
    with inv TaskSettles show ?thesis by (simp add: task_settles_def)
  next
    case (Some t)
    with inv have "queue_inv (drain_next (q\<lparr>running := None, history := history q @ [Finished t ok]\<rparr>))"
      by (intro queue_inv_drain_next) (auto simp: queue_inv_def serial_snoc_Finished)
    with Some TaskSettles show ?thesis by (simp add: task_settles_def)
  qed
qed

lemma queue_run_snoc: "queue_run (evs @ [e]) = queue_step (queue_run evs) e"
  by (simp add: queue_run_def)

lemma queue_inv_run: "queue_inv (queue_run evs)"
  by (induction evs rule: rev_induct) (simp_all add: queue_run_snoc queue_inv_step queue_run_def queue_inv_new)

lemma all_tasks_drain_next [simp]: "all_tasks (drain_next q) = all_tasks q"
  by (simp add: all_tasks_def drain_next_def split: list.splits)

lemma all_tasks_step:
  "all_tasks (queue_step q e) = all_tasks q @ submitted [e]"
proof (cases e)
  case (AddTask t)
  then show ?thesis by (simp add: all_tasks_def addTask_def)
next
  case StartQueue
  have "all_tasks (drain_next (q\<lparr>draining := True\<rparr>)) = all_tasks q"
    unfolding all_tasks_drain_next by (simp add: all_tasks_def)
  with StartQueue show ?thesis by (simp add: startQueue_def)
next
  case (TaskSettles ok)
  have "\<And>t. all_tasks (drain_next (q\<lparr>running := None, history := history q @ [Finished t ok]\<rparr>)) = all_tasks q"
    unfolding all_tasks_drain_next by (simp add: all_tasks_def)
  with TaskSettles show ?thesis by (simp add: task_settles_def split: option.splits)
qed

lemma all_tasks_run: "all_tasks (queue_run evs) = submitted evs"
proof (induction evs rule: rev_induct)
  case Nil
  show ?case by (simp add: queue_run_def all_tasks_def new_TaskQueue_def)
next
  case (snoc e evs)
  then show ?case by (simp add: queue_run_snoc all_tasks_step)
qed

text \<open>
  Claim C3. After any sequence of \<open>addTask\<close> calls, \<open>startQueue\<close> calls and task
  settlements on one executor, the tasks started so far followed by the tasks still
  pending are the submitted tasks in submission order; the history of executions is
  serial, so at most one task is executing at any instant and it is the one the loop
  awaits; submitting a task changes neither the history nor the running task, and while
  a task is running the \<open>startQueue\<close> that follows a submission does nothing. A started
  executor that runs nothing has nothing pending.
\<close>

theorem executor_runs_fifo_one_at_a_time:
  "started_tasks (history (queue_run evs)) @ tasks (queue_run evs) = submitted evs
   \<and> serial (history (queue_run evs))
   \<and> running (queue_run evs) = executing (history (queue_run evs))
   \<and> history (addTask t (queue_run evs)) = history (queue_run evs)
   \<and> running (addTask t (queue_run evs)) = running (queue_run evs)
   \<and> (running (queue_run evs) \<noteq> None \<longrightarrow>
        startQueue (addTask t (queue_run evs)) = addTask t (queue_run evs))
   \<and> (running (startQueue (queue_run evs)) = None \<longrightarrow> tasks (startQueue (queue_run evs)) = [])"
proof -
  have inv: "queue_inv (queue_run evs)" by (rule queue_inv_run)
  have fifo: "started_tasks (history (queue_run evs)) @ tasks (queue_run evs) = submitted evs"
    using all_tasks_run [of evs] by (simp add: all_tasks_def)
  have busy: "running (queue_run evs) \<noteq> None \<Longrightarrow>
        startQueue (addTask t (queue_run evs)) = addTask t (queue_run evs)"
    using inv by (simp add: queue_inv_def startQueue_def addTask_def)
  have idle: "running (startQueue (queue_run evs)) = None \<Longrightarrow> tasks (startQueue (queue_run evs)) = []"
    using inv by (auto simp: queue_inv_def startQueue_def drain_next_def split: if_splits list.splits)
  show ?thesis
    using inv fifo busy idle by (simp add: queue_inv_def addTask_def)
qed

lemmas queue_defs = queue_run_def new_TaskQueue_def addTask_def startQueue_def drain_next_def
  task_settles_def

theorem executor_runs_fifo_one_at_a_time_witness:
  "history (queue_run [AddTask (1::nat), StartQueue, AddTask 2, StartQueue, AddTask 3, StartQueue,
                       TaskSettles True, TaskSettles False, TaskSettles True]) =
     [Started 1, Finished 1 True, Started 2, Finished 2 False, Started 3, Finished 3 True]
   \<and> serial (history (queue_run [AddTask (1::nat), StartQueue, AddTask 2, StartQueue, AddTask 3,
                       StartQueue, TaskSettles True, TaskSettles False, TaskSettles True]))
   \<and> running (queue_run [AddTask (1::nat), StartQueue, AddTask 2, StartQueue]) = Some 1
   \<and> startQueue (addTask 3 (queue_run [AddTask (1::nat), StartQueue, AddTask 2, StartQueue])) =
       addTask 3 (queue_run [AddTask (1::nat), StartQueue, AddTask 2, StartQueue])
   \<and> running (startQueue (queue_run [AddTask (1::nat), StartQueue, TaskSettles True])) = None
   \<and> tasks (startQueue (queue_run [AddTask (1::nat), StartQueue, TaskSettles True])) = []"
proof -
  let ?busy = "[AddTask (1::nat), StartQueue, AddTask 2, StartQueue]"
  let ?idle = "[AddTask (1::nat), StartQueue, TaskSettles True]"
  let ?all = "[AddTask (1::nat), StartQueue, AddTask 2, StartQueue, AddTask 3, StartQueue,
               TaskSettles True, TaskSettles False, TaskSettles True]"
  have h: "history (queue_run ?all) =
      [Started 1, Finished 1 True, Started 2, Finished 2 False, Started 3, Finished 3 True]"
    by (simp add: queue_defs)
  have s: "serial (history (queue_run ?all))"
    using executor_runs_fifo_one_at_a_time [of ?all 0] by blast
  have r: "running (queue_run ?busy) = Some 1"
    by (simp add: queue_defs)
  have b: "startQueue (addTask 3 (queue_run ?busy)) = addTask 3 (queue_run ?busy)"
    using executor_runs_fifo_one_at_a_time [of ?busy 3] r by simp
  have i: "running (startQueue (queue_run ?idle)) = None"
    by (simp add: queue_defs)
  have e: "tasks (startQueue (queue_run ?idle)) = []"
    using executor_runs_fifo_one_at_a_time [of ?idle 0] i by simp
  show ?thesis using h s r b i e by blast
qed

section \<open>Properties of GoogleAPI\<close>

lemma taskQueue_call_handler:
  "taskQueue (call_handler t api) = startQueue (addTask t (taskQueue api))"
  by (cases t)
     (simp_all add: handleGameRequestFund_def handleGameRequestAdd_def handleCheer_def
        handleBidwarContribute_def handleBidwarAddEntry_def handleBidwarAddFunds_def)

lemma googleSheets_call_handler: "googleSheets (call_handler t api) = googleSheets api"
  by (cases t)
     (simp_all add: handleGameRequestFund_def handleGameRequestAdd_def handleCheer_def
        handleBidwarContribute_def handleBidwarAddEntry_def handleBidwarAddFunds_def)

lemma taskQueue_api_step:
  "taskQueue (api_step api e) = foldl queue_step (taskQueue api) (queue_events e)"
  by (cases e) (simp_all add: taskQueue_call_handler)

lemma taskQueue_foldl_api_step:
  "taskQueue (foldl api_step api evs) =
     foldl queue_step (taskQueue api) (concat (map queue_events evs))"
  by (induction evs arbitrary: api) (simp_all add: taskQueue_api_step del: api_step.simps)

lemma taskQueue_api_run:
  "taskQueue (api_run evs) = queue_run (concat (map queue_events evs))"
  by (simp add: api_run_def queue_run_def taskQueue_foldl_api_step new_GoogleAPI_def)

lemma submitted_queue_events:
  "submitted (concat (map queue_events evs)) = called_tasks evs"
  by (induction evs rule: called_tasks.induct) simp_all

text \<open>
  Each of the six handlers submits its task to the \<open>taskQueue\<close> of the \<open>GoogleAPI\<close>
  object and touches nothing else, so whatever the handlers called and whenever tasks
  settle, the tasks started followed by the tasks pending are the handler calls in call
  order, game requests and bidwar writes alike, and their executions never overlap.
\<close>

lemma handler_calls_share_the_taskQueue:
  "taskQueue (call_handler t api) = startQueue (addTask t (taskQueue api))
   \<and> googleSheets (call_handler t api) = googleSheets api
   \<and> taskQueue (api_run evs) = queue_run (concat (map queue_events evs))
   \<and> started_tasks (history (taskQueue (api_run evs))) @ tasks (taskQueue (api_run evs)) =
       called_tasks evs
   \<and> serial (history (taskQueue (api_run evs)))"
proof -
  have "all_tasks (taskQueue (api_run evs)) = called_tasks evs"
    by (simp add: taskQueue_api_run all_tasks_run submitted_queue_events)
  moreover have "queue_inv (taskQueue (api_run evs))"
    by (simp add: taskQueue_api_run queue_inv_run)
  ultimately show ?thesis
    by (simp add: taskQueue_call_handler googleSheets_call_handler taskQueue_api_run
          all_tasks_def queue_inv_def)
qed

text \<open>
  Claim C5 says that all writes to the remote ledger are submitted to the one executor.
  The six handlers do submit their tasks to it, but the write of a confirmed overfund is
  not submitted to any executor: the \<open>complete\<close> operation of the \<open>HeldTask\<close> runs
  \<open>completeFunding\<close> on the spot, leaves the queue of the \<open>GoogleAPI\<close> object untouched
  and pushes the sheet its task had read. With Tetris at 3 of 5 points, bob's 4 points
  are held for confirmation; alice's 1 point is then written by a queued task, which makes
  4 of 5; bob's confirmation pushes 7 of 5, and alice's point is gone from the ledger.
\<close>

theorem confirmed_overfund_bypasses_executor:
  "taskQueue (fst (heldTask_complete outcomeComplete env (api, w))) = taskQueue api
   \<and> pushes (calls (snd (heldTask_complete
          (sheet, completeFunding ops respondTo gameName username points timestamp) env (api, w)))) =
       pushes (calls w) @
         [PushSheet incentiveSheetId gameRequestSubSheet
            (addPointsToEntry ops sheet username gameName points timestamp)]
   \<and> map_option complete (settled (future (fund_task example_ops
          (reliable [(js_lit ''Tetris'', \<lparr>pointsContributed = 3, pointsToActivate = 5\<rparr>)])
          (js_lit ''#chan'') (js_lit ''Tetris'') (js_lit ''bob'') 4 0 (task_start quiet [])))) =
       Some (Some ([(js_lit ''Tetris'', \<lparr>pointsContributed = 3, pointsToActivate = 5\<rparr>)],
                   completeFunding example_ops (js_lit ''#chan'') (js_lit ''Tetris'')
                     (js_lit ''bob'') 4 0))
   \<and> pushes (calls (fund_task example_ops
          (reliable [(js_lit ''Tetris'', \<lparr>pointsContributed = 3, pointsToActivate = 5\<rparr>)])
          (js_lit ''#chan'') (js_lit ''Tetris'') (js_lit ''alice'') 1 0 (task_start quiet []))) =
       [PushSheet incentiveSheetId gameRequestSubSheet
          [(js_lit ''Tetris'', \<lparr>pointsContributed = 4, pointsToActivate = 5\<rparr>)]]
   \<and> pushes (calls (snd (heldTask_complete
          ([(js_lit ''Tetris'', \<lparr>pointsContributed = 3, pointsToActivate = 5\<rparr>)],
           completeFunding example_ops (js_lit ''#chan'') (js_lit ''Tetris'') (js_lit ''bob'') 4 0)
          (reliable [(js_lit ''Tetris'', \<lparr>pointsContributed = 4, pointsToActivate = 5\<rparr>)])
          (new_GoogleAPI :: unit GoogleAPI, \<lparr>bot = quiet, calls = [], thrown = None\<rparr>)))) =
       [PushSheet incentiveSheetId gameRequestSubSheet
          [(js_lit ''Tetris'', \<lparr>pointsContributed = 7, pointsToActivate = 5\<rparr>)]]"
  by (simp add: heldTask_complete_def completion_first_run completeFunding_calls
        completeFunding_thrown completeFunding_future fund_task_def Let_def settled_resolve)

section \<open>Properties of deferred values\<close>

lemma settled_get_value [simp]: "settled (get_value c f) = settled f"
  by (simp add: get_value_def split: option.splits)

lemma resolve_settled: "settled f \<noteq> None \<Longrightarrow> resolve v f = f"
  by (auto simp: resolve_def settle_def split: option.splits)

lemma resolve_pending: "settled f = None \<Longrightarrow> resolve v f \<noteq> f"
  by (auto simp: resolve_def settle_def dest: arg_cong [where f = settled])

lemma state_changes_settled: "settled f \<noteq> None \<Longrightarrow> state_changes f cs = 0"
  by (induction f cs rule: state_changes.induct) (auto simp: resolve_settled)

lemma state_changes_le: "state_changes f cs \<le> 1"
proof (induction f cs rule: state_changes.induct)
  case (2 f v cs)
  show ?case
  proof (cases "settled f")
    case None
    then have "settled (resolve v f) \<noteq> None" by (simp add: settled_resolve)
    then show ?thesis by (simp add: state_changes_settled)
  next
    case (Some u)
    then show ?thesis using 2 by (simp add: resolve_settled)
  qed
qed simp_all

lemma getters_append [simp]: "getters (cs @ cs') = getters cs @ getters cs'"
  by (induction cs rule: getters.induct) simp_all

lemma future_inv_step:
  "future_inv gs f \<Longrightarrow> future_inv (gs @ getters [c]) (future_step f c)"
  by (cases c)
     (auto simp: future_inv_def resolve_def settle_def get_value_def split: option.splits)

lemma future_run_snoc: "future_run (cs @ [c]) = future_step (future_run cs) c"
  by (simp add: future_run_def)

lemma future_inv_run: "future_inv (getters cs) (future_run cs)"
proof (induction cs rule: rev_induct)
  case Nil
  show ?case by (simp add: future_run_def future_inv_def new_Future_def)
next
  case (snoc c cs)
  then show ?case using future_inv_step [of "getters cs" "future_run cs" c]
    by (simp add: future_run_snoc)
qed

lemma settled_step_stable: "settled f = Some v \<Longrightarrow> settled (future_step f c) = Some v"
  by (cases c) (simp_all add: settled_resolve)

lemma settled_foldl_stable: "settled f = Some v \<Longrightarrow> settled (foldl future_step f cs) = Some v"
  by (induction cs arbitrary: f) (simp_all add: settled_step_stable del: future_step.simps)

text \<open>
  Claim C7. Over any sequence of \<open>settle\<close> and \<open>get\<close> calls on a Deferred Value at most
  one \<open>settle\<close> changes the state; while it is pending nobody has been answered and every
  consumer is waiting; once it is settled with \<open>v\<close> every consumer that has asked, before
  or after, has been answered \<open>v\<close>, and no later call changes the value. \<open>startup\<close> is one
  \<open>settle\<close> call on \<open>_googleSheets\<close>, so all its consumers are answered the same handle.
\<close>

theorem future_settles_once_with_one_value:
  "state_changes new_Future cs \<le> 1
   \<and> (settled (future_run cs) = None \<longrightarrow>
        delivered (future_run cs) = [] \<and> waiting (future_run cs) = getters cs)
   \<and> (settled (future_run cs) = Some v \<longrightarrow>
        set (delivered (future_run cs)) = (\<lambda>c. (c, v)) ` set (getters cs)
        \<and> waiting (future_run cs) = []
        \<and> settled (future_run (cs @ later)) = Some v)
   \<and> settled (googleSheets (startup sheets new_GoogleAPI)) = Some sheets
   \<and> googleSheets (startup sheets (new_GoogleAPI\<lparr>googleSheets := future_run cs\<rparr>)) =
       future_run (cs @ [Settle sheets])"
proof -
  have "settled (future_run cs) = Some v \<Longrightarrow> settled (future_run (cs @ later)) = Some v"
    by (simp add: future_run_def settled_foldl_stable)
  moreover have "settled (googleSheets (startup sheets new_GoogleAPI)) = Some sheets"
    by (simp add: startup_def new_GoogleAPI_def new_Future_def settled_resolve)
  moreover have "googleSheets (startup sheets (new_GoogleAPI\<lparr>googleSheets := future_run cs\<rparr>)) =
       future_run (cs @ [Settle sheets])"
    by (simp add: startup_def future_run_snoc)
  ultimately show ?thesis
    using future_inv_run [of cs] state_changes_le [of new_Future cs]
    by (auto simp: future_inv_def)
qed

lemmas future_defs = future_run_def new_Future_def resolve_def settle_def get_value_def

theorem future_settles_once_with_one_value_witness:
  "settled (future_run [Get 1, Settle (7::nat), Get 2, Settle 8]) = Some 7
   \<and> set (delivered (future_run [Get 1, Settle (7::nat), Get 2, Settle 8])) = {(1, 7), (2, 7)}
   \<and> settled (future_run ([Get 1, Settle (7::nat), Get 2, Settle 8] @ [Settle 9, Get 3])) = Some 7
   \<and> settled (future_run [Get 1, Get (2::nat)] :: nat Future) = None
   \<and> waiting (future_run [Get 1, Get (2::nat)] :: nat Future) = [1, 2]"
proof -
  let ?cs = "[Get 1, Settle (7::nat), Get 2, Settle 8]"
  let ?ps = "[Get 1, Get 2] :: nat future_call list"
  have s: "settled (future_run ?cs) = Some 7" by (simp add: future_defs)
  have p: "settled (future_run ?ps) = None" by (simp add: future_defs)
  note t1 = future_settles_once_with_one_value [of ?cs 7 "[Settle 9, Get 3]" 0]
  note t2 = future_settles_once_with_one_value [of ?ps 7 "[]" 0]
  have d: "set (delivered (future_run ?cs)) = {(1, 7), (2, 7)}"
    using t1 s by auto
  have m: "settled (future_run (?cs @ [Settle 9, Get 3])) = Some 7"
    using t1 s by blast
  have w: "waiting (future_run ?ps) = [1, 2]"
    using t2 p by simp
  show ?thesis using s d m p w by blast
qed

section \<open>Properties of the held action registry\<close>

subsection \<open>Settling one action\<close>

lemma ops_of_simps [simp]:
  "ops_of i [] = []"
  "ops_of i (xs @ ys) = ops_of i xs @ ops_of i ys"
  "ops_of i [(j, operation)] = (if j = i then [operation] else [])"
  by (simp_all add: ops_of_def)

lemma ops_for_settled_as [simp]: "ops_for (settled_as operation) = [operation]"
  by (cases operation) simp_all

lemma settled_as_not_Pending [simp]: "settled_as operation \<noteq> Pending"
  by (cases operation) simp_all

lemma settle_action_frame [simp]:
  "length (actions (settle_action j operation r)) = length (actions r)"
  "clock (settle_action j operation r) = clock r"
  by (simp_all add: settle_action_def)

lemma settle_action_key [simp]:
  "key (actions (settle_action j operation r) ! i) = key (actions r ! i)"
proof (cases "j < length (actions r) \<and> state (actions r ! j) = Pending")
  case True
  then show ?thesis by (cases "i = j") (simp_all add: settle_action_def)
next
  case False
  then have "settle_action j operation r = r" unfolding settle_action_def by (simp only: if_False)
  then show ?thesis by simp
qed

lemma settle_action_deadline [simp]:
  "deadline (actions (settle_action j operation r) ! i) = deadline (actions r ! i)"
proof (cases "j < length (actions r) \<and> state (actions r ! j) = Pending")
  case True
  then show ?thesis by (cases "i = j") (simp_all add: settle_action_def)
next
  case False
  then have "settle_action j operation r = r" unfolding settle_action_def by (simp only: if_False)
  then show ?thesis by simp
qed

lemma state_of_settle_action:
  "state_of i (settle_action j operation r) =
     (if j = i \<and> state_of i r = Some Pending then Some (settled_as operation) else state_of i r)"
proof (cases "j < length (actions r) \<and> state (actions r ! j) = Pending")
  case True
  then show ?thesis
    by (cases "i = j") (simp_all add: settle_action_def state_of_def)
next
  case False
  then have "settle_action j operation r = r" unfolding settle_action_def by (simp only: if_False)
  with False show ?thesis by (auto simp: state_of_def)
qed

lemma ops_of_settle_action:
  "ops_of i (executed (settle_action j operation r)) =
     ops_of i (executed r) @ (if j = i \<and> state_of i r = Some Pending then [operation] else [])"
proof (cases "j < length (actions r) \<and> state (actions r ! j) = Pending")
  case True
  then show ?thesis
    by (cases "i = j") (simp_all add: settle_action_def state_of_def)
next
  case False
  then have "settle_action j operation r = r" unfolding settle_action_def by (simp only: if_False)
  with False show ?thesis by (auto simp: state_of_def)
qed

lemma sound_settle_action: "ops_accounted r \<Longrightarrow> ops_accounted (settle_action j operation r)"
  unfolding ops_accounted_def
  by (simp add: state_of_settle_action ops_of_settle_action)

lemma entries_settle_action:
  "entries (settle_action j operation r) k = Some i \<Longrightarrow> entries r k = Some i"
  by (cases "j < length (actions r) \<and> state (actions r ! j) = Pending")
     (auto simp: settle_action_def split: if_splits)

lemma consistent_settle_action: "entries_valid r \<Longrightarrow> entries_valid (settle_action j operation r)"
  unfolding entries_valid_def
  by (auto dest!: entries_settle_action)

subsection \<open>Several timers at once\<close>

lemma fold_settle_frame [simp]:
  "length (actions (fold (\<lambda>j. settle_action j operation) js r)) = length (actions r)"
  "clock (fold (\<lambda>j. settle_action j operation) js r) = clock r"
  by (induction js arbitrary: r) simp_all

lemma fold_settle_key [simp]:
  "key (actions (fold (\<lambda>j. settle_action j operation) js r) ! i) = key (actions r ! i)"
  by (induction js arbitrary: r) simp_all

lemma fold_settle_deadline [simp]:
  "deadline (actions (fold (\<lambda>j. settle_action j operation) js r) ! i) = deadline (actions r ! i)"
  by (induction js arbitrary: r) simp_all

lemma state_of_fold_settle:
  "state_of i (fold (\<lambda>j. settle_action j operation) js r) =
     (if i \<in> set js \<and> state_of i r = Some Pending then Some (settled_as operation) else state_of i r)"
  by (induction js arbitrary: r) (auto simp: state_of_settle_action)

lemma ops_of_fold_settle:
  "ops_of i (executed (fold (\<lambda>j. settle_action j operation) js r)) =
     ops_of i (executed r) @ (if i \<in> set js \<and> state_of i r = Some Pending then [operation] else [])"
  by (induction js arbitrary: r) (auto simp: state_of_settle_action ops_of_settle_action)

lemma sound_fold_settle: "ops_accounted r \<Longrightarrow> ops_accounted (fold (\<lambda>j. settle_action j operation) js r)"
  by (induction js arbitrary: r) (simp_all add: sound_settle_action)

lemma consistent_fold_settle:
  "entries_valid r \<Longrightarrow> entries_valid (fold (\<lambda>j. settle_action j operation) js r)"
  by (induction js arbitrary: r) (simp_all add: consistent_settle_action)

lemma entries_fold_settle:
  "entries (fold (\<lambda>j. settle_action j operation) js r) k = Some i \<Longrightarrow> entries r k = Some i"
  by (induction js arbitrary: r) (auto dest: entries_settle_action)

subsection \<open>The passing of time\<close>

lemma advance_frame [simp]:
  "length (actions (advance t r)) = length (actions r)"
  "clock (advance t r) = max (clock r) t"
  "key (actions (advance t r) ! i) = key (actions r ! i)"
  "deadline (actions (advance t r) ! i) = deadline (actions r ! i)"
  by (simp_all add: advance_def)

lemma state_of_clock [simp]: "state_of i (r\<lparr>clock := c\<rparr>) = state_of i r"
  by (simp add: state_of_def)

lemma in_due: "i \<in> set (due t r) \<longleftrightarrow> i < length (actions r) \<and> deadline (actions r ! i) \<le> t"
  by (auto simp: due_def)

lemma state_of_Some_less: "state_of i r = Some s \<Longrightarrow> i < length (actions r)"
  by (simp add: state_of_def split: if_splits)

lemma state_of_advance:
  "state_of i (advance t r) =
     (if state_of i r = Some Pending \<and> deadline (actions r ! i) \<le> t then Some Cancelled
      else state_of i r)"
  by (auto simp: advance_def state_of_fold_settle in_due dest: state_of_Some_less)

lemma ops_of_advance:
  "ops_of i (executed (advance t r)) =
     ops_of i (executed r) @
       (if state_of i r = Some Pending \<and> deadline (actions r ! i) \<le> t then [CancellationOp] else [])"
  by (auto simp: advance_def ops_of_fold_settle in_due dest: state_of_Some_less)

lemma sound_advance: "ops_accounted r \<Longrightarrow> ops_accounted (advance t r)"
  unfolding ops_accounted_def by (simp add: state_of_advance ops_of_advance)

lemma entries_advance: "entries (advance t r) k = Some i \<Longrightarrow> entries r k = Some i"
  by (auto simp: advance_def dest: entries_fold_settle)

lemma consistent_advance: "entries_valid r \<Longrightarrow> entries_valid (advance t r)"
  unfolding entries_valid_def by (auto dest!: entries_advance)

subsection \<open>The calls\<close>

lemma snd_registry_complete: "snd (registry_complete k r) = lookup_settle k CompletionOp r"
  by (simp add: registry_complete_def lookup_settle_def split: option.splits)

lemma snd_registry_cancel: "snd (registry_cancel k r) = lookup_settle k CancellationOp r"
  by (simp add: registry_cancel_def lookup_settle_def split: option.splits)

lemma lookup_settle_frame [simp]:
  "length (actions (lookup_settle k operation r)) = length (actions r)"
  "clock (lookup_settle k operation r) = clock r"
  "key (actions (lookup_settle k operation r) ! i) = key (actions r ! i)"
  "deadline (actions (lookup_settle k operation r) ! i) = deadline (actions r ! i)"
  by (simp_all add: lookup_settle_def split: option.splits)

lemma state_of_lookup_settle:
  "state_of i (lookup_settle k operation r) =
     (if entries r k = Some i \<and> state_of i r = Some Pending then Some (settled_as operation)
      else state_of i r)"
  by (auto simp: lookup_settle_def state_of_settle_action split: option.splits)

lemma ops_of_lookup_settle:
  "ops_of i (executed (lookup_settle k operation r)) =
     ops_of i (executed r) @
       (if entries r k = Some i \<and> state_of i r = Some Pending then [operation] else [])"
  by (auto simp: lookup_settle_def ops_of_settle_action split: option.splits)

lemma sound_lookup_settle: "ops_accounted r \<Longrightarrow> ops_accounted (lookup_settle k operation r)"
  by (simp add: lookup_settle_def sound_settle_action split: option.splits)

lemma entries_lookup_settle:
  "entries (lookup_settle k operation r) k' = Some i \<Longrightarrow> entries r k' = Some i"
  by (auto simp: lookup_settle_def split: option.splits dest: entries_settle_action)

lemma consistent_lookup_settle: "entries_valid r \<Longrightarrow> entries_valid (lookup_settle k operation r)"
  by (simp add: lookup_settle_def consistent_settle_action split: option.splits)

lemma registry_register_alt:
  "registry_register k timeout r =
     (lookup_settle k CancellationOp r)
       \<lparr>actions := actions (lookup_settle k CancellationOp r)
            @ [\<lparr>key = k, deadline = clock r + timeout, state = Pending\<rparr>],
        entries := (entries (lookup_settle k CancellationOp r))(k \<mapsto> length (actions r))\<rparr>"
  by (simp add: registry_register_def Let_def snd_registry_cancel)

lemma register_frame [simp]:
  "length (actions (registry_register k timeout r)) = Suc (length (actions r))"
  "clock (registry_register k timeout r) = clock r"
  "executed (registry_register k timeout r) = executed (lookup_settle k CancellationOp r)"
  by (simp_all add: registry_register_alt)

lemma state_of_register:
  "state_of i (registry_register k timeout r) =
     (if i = length (actions r) then Some Pending else state_of i (lookup_settle k CancellationOp r))"
  by (auto simp: registry_register_alt state_of_def nth_append)

lemma register_old_fields:
  "i < length (actions r) \<Longrightarrow>
   key (actions (registry_register k timeout r) ! i) = key (actions r ! i)
   \<and> deadline (actions (registry_register k timeout r) ! i) = deadline (actions r ! i)"
  by (simp add: registry_register_alt nth_append)

lemma register_new_fields:
  "key (actions (registry_register k timeout r) ! length (actions r)) = k
   \<and> deadline (actions (registry_register k timeout r) ! length (actions r)) = clock r + timeout"
  by (simp add: registry_register_alt nth_append)

lemma sound_register: "ops_accounted r \<Longrightarrow> ops_accounted (registry_register k timeout r)"
proof -
  assume "ops_accounted r"
  then have s: "ops_accounted (lookup_settle k CancellationOp r)" by (rule sound_lookup_settle)
  have "state_of (length (actions r)) (lookup_settle k CancellationOp r) = None"
    by (simp add: state_of_def)
  with s have "ops_of (length (actions r)) (executed (lookup_settle k CancellationOp r)) = []"
    by (simp add: ops_accounted_def)
  with s show ?thesis
    by (simp add: ops_accounted_def state_of_register)
qed

lemma consistent_register: "entries_valid r \<Longrightarrow> entries_valid (registry_register k timeout r)"
proof -
  assume "entries_valid r"
  then have c: "entries_valid (lookup_settle k CancellationOp r)" by (rule consistent_lookup_settle)
  show ?thesis
    unfolding entries_valid_def
  proof (intro allI impI)
    fix k' j
    assume e: "entries (registry_register k timeout r) k' = Some j"
    show "j < length (actions (registry_register k timeout r))
          \<and> key (actions (registry_register k timeout r) ! j) = k'"
    proof (cases "k' = k")
      case True
      with e have "j = length (actions r)" by (simp add: registry_register_alt)
      with True show ?thesis by (simp add: register_new_fields)
    next
      case False
      with e have "entries (lookup_settle k CancellationOp r) k' = Some j"
        by (simp add: registry_register_alt)
      with c have "j < length (actions r) \<and> key (actions r ! j) = k'"
        by (auto simp: entries_valid_def)
      then show ?thesis by (simp add: register_old_fields)
    qed
  qed
qed

lemma perform_call_alt:
  "perform_call c r =
     (case c of
        Register k timeout \<Rightarrow> registry_register k timeout r
      | Complete k \<Rightarrow> lookup_settle k CompletionOp r
      | Cancel k \<Rightarrow> lookup_settle k CancellationOp r
      | Wait \<Rightarrow> r)"
  by (cases c) (simp_all add: snd_registry_complete snd_registry_cancel)

lemma sound_perform_call: "ops_accounted r \<Longrightarrow> ops_accounted (perform_call c r)"
  by (cases c) (simp_all add: perform_call_alt sound_register sound_lookup_settle)

lemma consistent_perform_call: "entries_valid r \<Longrightarrow> entries_valid (perform_call c r)"
  by (cases c) (simp_all add: perform_call_alt consistent_register consistent_lookup_settle)

lemma sound_step: "ops_accounted r \<Longrightarrow> ops_accounted (registry_step r e)"
  by (cases e) (simp add: sound_perform_call sound_advance)

lemma consistent_step: "entries_valid r \<Longrightarrow> entries_valid (registry_step r e)"
  by (cases e) (simp add: consistent_perform_call consistent_advance)

lemma sound_foldl: "ops_accounted r \<Longrightarrow> ops_accounted (foldl registry_step r evs)"
  by (induction evs arbitrary: r) (simp_all add: sound_step del: registry_step.simps)

lemma consistent_foldl: "entries_valid r \<Longrightarrow> entries_valid (foldl registry_step r evs)"
  by (induction evs arbitrary: r) (simp_all add: consistent_step del: registry_step.simps)

lemma sound_new: "ops_accounted new_Registry"
  by (simp add: ops_accounted_def new_Registry_def state_of_def)

lemma consistent_new: "entries_valid new_Registry"
  by (simp add: entries_valid_def new_Registry_def)

lemma sound_run: "ops_accounted (registry_run evs)"
  by (simp add: registry_run_def sound_foldl sound_new)

lemma consistent_run: "entries_valid (registry_run evs)"
  by (simp add: registry_run_def consistent_foldl consistent_new)

lemma registry_run_append:
  "registry_run (evs @ evs') = foldl registry_step (registry_run evs) evs'"
  by (simp add: registry_run_def)

subsection \<open>What an event does to one action\<close>

lemma state_of_perform_call:
  "state_of i r = Some s \<Longrightarrow>
   state_of i (perform_call c r) =
     (if s = Pending \<and> (\<exists>k. (c = Complete k \<or> c = Cancel k \<or> (\<exists>d. c = Register k d))
                              \<and> entries r k = Some i)
      then (case c of Complete k \<Rightarrow> Some Completed | _ \<Rightarrow> Some Cancelled)
      else Some s)"
  by (cases c)
     (auto simp: perform_call_alt state_of_register state_of_lookup_settle
           dest: state_of_Some_less)

lemma settled_stays_call:
  "state_of i r = Some s \<Longrightarrow> s \<noteq> Pending \<Longrightarrow>
   state_of i (perform_call c r) = Some s
   \<and> ops_of i (executed (perform_call c r)) = ops_of i (executed r)"
  by (cases c)
     (auto simp: perform_call_alt state_of_register state_of_lookup_settle ops_of_lookup_settle
           dest: state_of_Some_less)

lemma settled_stays_step:
  "state_of i r = Some s \<Longrightarrow> s \<noteq> Pending \<Longrightarrow>
   state_of i (registry_step r e) = Some s
   \<and> ops_of i (executed (registry_step r e)) = ops_of i (executed r)"
proof (cases e)
  case (Pair t c)
  assume a: "state_of i r = Some s" "s \<noteq> Pending"
  then have "state_of i (advance t r) = Some s"
    and "ops_of i (executed (advance t r)) = ops_of i (executed r)"
    by (simp_all add: state_of_advance ops_of_advance)
  with a(2) Pair show ?thesis
    using settled_stays_call [of i "advance t r" s c] by simp
qed

lemma settled_stays_foldl:
  "state_of i r = Some s \<Longrightarrow> s \<noteq> Pending \<Longrightarrow>
   state_of i (foldl registry_step r evs) = Some s
   \<and> ops_of i (executed (foldl registry_step r evs)) = ops_of i (executed r)"
proof (induction evs arbitrary: r)
  case Nil
  then show ?case by simp
next
  case (Cons e evs)
  from settled_stays_step [OF Cons.prems, of e]
  have 1: "state_of i (registry_step r e) = Some s"
    and 2: "ops_of i (executed (registry_step r e)) = ops_of i (executed r)" by simp_all
  from Cons.IH [OF 1 Cons.prems(2)] 2 show ?case by simp
qed

lemma sound_ops: "ops_accounted r \<Longrightarrow> state_of i r = Some s \<Longrightarrow> ops_of i (executed r) = ops_for s"
  by (simp add: ops_accounted_def)

lemma length_ops_for: "length (ops_for s) \<le> Suc 0"
  by (cases s) simp_all

lemma sound_at_most_one: "ops_accounted r \<Longrightarrow> length (ops_of i (executed r)) \<le> 1"
  by (cases "state_of i r") (simp_all add: ops_accounted_def length_ops_for)

lemma deadline_settles:
  assumes "ops_accounted r" and "state_of i r = Some s0" and "deadline (actions r ! i) \<le> t"
  shows "\<exists>s. s \<noteq> Pending \<and> state_of i (registry_step r (t, c)) = Some s
             \<and> ops_of i (executed (registry_step r (t, c))) = ops_for s"
proof -
  let ?a = "advance t r"
  obtain s where s: "state_of i ?a = Some s" "s \<noteq> Pending"
    using assms(2,3) by (cases "s0 = Pending") (simp_all add: state_of_advance)
  have "ops_accounted ?a" using assms(1) by (rule sound_advance)
  then have "ops_of i (executed ?a) = ops_for s" using s(1) by (rule sound_ops)
  with settled_stays_call [OF s, of c] s(2) show ?thesis by auto
qed

subsection \<open>An action nobody completes in time\<close>

lemma uncompleted_step:
  assumes "entries_valid r"
    and "state_of i r = Some s" and "s = Pending \<or> s = Cancelled"
    and "key (actions r ! i) = k"
    and "c = Complete k \<longrightarrow> deadline (actions r ! i) \<le> t"
  shows "(state_of i (registry_step r (t, c)) = Some Pending
            \<or> state_of i (registry_step r (t, c)) = Some Cancelled)
         \<and> (deadline (actions r ! i) \<le> t \<longrightarrow> state_of i (registry_step r (t, c)) = Some Cancelled)
         \<and> key (actions (registry_step r (t, c)) ! i) = k
         \<and> deadline (actions (registry_step r (t, c)) ! i) = deadline (actions r ! i)"
proof -
  let ?a = "advance t r"
  have less: "i < length (actions ?a)" using assms(2) by (auto dest: state_of_Some_less)
  have ca: "entries_valid ?a" using assms(1) by (rule consistent_advance)
  have ka: "key (actions ?a ! i) = k" using assms(4) by simp
  define s' where "s' = (if s = Pending \<and> deadline (actions r ! i) \<le> t then Cancelled else s)"
  have s': "state_of i ?a = Some s'" "s' = Pending \<or> s' = Cancelled"
    "deadline (actions r ! i) \<le> t \<longrightarrow> s' = Cancelled"
    using assms(2,3) by (auto simp: state_of_advance s'_def)
  have guard: "s' = Pending \<Longrightarrow> entries ?a k' = Some i \<Longrightarrow> c \<noteq> Complete k'" for k'
  proof
    assume p: "s' = Pending" and e: "entries ?a k' = Some i" and c: "c = Complete k'"
    from ca e have "key (actions ?a ! i) = k'" by (auto simp: entries_valid_def)
    with ka c have "c = Complete k" by simp
    with assms(5) s'(3) p show False by simp
  qed
  have st: "(state_of i (perform_call c ?a) = Some Pending
              \<or> state_of i (perform_call c ?a) = Some Cancelled)
            \<and> (s' = Cancelled \<longrightarrow> state_of i (perform_call c ?a) = Some Cancelled)"
    unfolding state_of_perform_call [OF s'(1)]
    using s'(2) guard
    by (cases c) auto
  have fields: "key (actions (perform_call c ?a) ! i) = key (actions ?a ! i)
                \<and> deadline (actions (perform_call c ?a) ! i) = deadline (actions ?a ! i)"
    using less by (cases c) (simp_all add: perform_call_alt register_old_fields)
  show ?thesis using st fields s'(3) ka by simp
qed

lemma uncompleted_foldl:
  assumes "entries_valid r"
    and "state_of i r = Some s" and "s = Pending \<or> s = Cancelled"
    and "key (actions r ! i) = k" and "deadline (actions r ! i) = dl"
    and "\<forall>(t, c) \<in> set post. c = Complete k \<longrightarrow> dl \<le> t"
  shows "(state_of i (foldl registry_step r post) = Some Pending
            \<or> state_of i (foldl registry_step r post) = Some Cancelled)
         \<and> ((s = Cancelled \<or> (\<exists>(t, c) \<in> set post. dl \<le> t)) \<longrightarrow>
                state_of i (foldl registry_step r post) = Some Cancelled)"
  using assms
proof (induction post arbitrary: r s)
  case Nil
  then show ?case by auto
next
  case (Cons e post)
  obtain t c where e: "e = (t, c)" by (cases e)
  from Cons.prems(6) e have c: "c = Complete k \<longrightarrow> deadline (actions r ! i) \<le> t"
    using Cons.prems(5) by simp
  note step = uncompleted_step [OF Cons.prems(1,2,3,4) c]
  let ?r = "registry_step r (t, c)"
  obtain s' where s': "state_of i ?r = Some s'" "s' = Pending \<or> s' = Cancelled"
    using step by auto
  have rest: "\<forall>(t, c) \<in> set post. c = Complete k \<longrightarrow> dl \<le> t"
    using Cons.prems(6) by simp
  have cons: "entries_valid ?r" using Cons.prems(1) by (rule consistent_step)
  have k: "key (actions ?r ! i) = k" and d: "deadline (actions ?r ! i) = dl"
    using step Cons.prems(5) by simp_all
  note ih = Cons.IH [OF cons s' k d rest]
  have first: "s = Cancelled \<or> dl \<le> t \<Longrightarrow> s' = Cancelled"
  proof -
    assume "s = Cancelled \<or> dl \<le> t"
    then show ?thesis
    proof
      assume "s = Cancelled"
      with settled_stays_step [OF Cons.prems(2), of "(t, c)"] s'(1) show ?thesis by simp
    next
      assume "dl \<le> t"
      with step Cons.prems(5) s'(1) show ?thesis by simp
    qed
  qed
  show ?case using ih first e by auto
qed

lemma entries_settle_action_eq:
  "entries (settle_action j operation r) =
     (if j < length (actions r) \<and> state (actions r ! j) = Pending
         \<and> entries r (key (actions r ! j)) = Some j
      then (entries r)(key (actions r ! j) := None) else entries r)"
  by (simp add: settle_action_def)

lemma entries_settle_other:
  "entries r k = Some i \<Longrightarrow> j \<noteq> i \<Longrightarrow> entries_valid r \<Longrightarrow>
   entries (settle_action j operation r) k = Some i"
proof -
  assume e: "entries r k = Some i" and n: "j \<noteq> i"
  have "key (actions r ! j) \<noteq> k" if "entries r (key (actions r ! j)) = Some j"
    using that e n by auto
  with e show ?thesis
    unfolding entries_settle_action_eq by (simp only: fun_upd_apply split: if_split) auto
qed

lemma entries_fold_other:
  "entries r k = Some i \<Longrightarrow> i \<notin> set js \<Longrightarrow> entries_valid r \<Longrightarrow>
   entries (fold (\<lambda>j. settle_action j operation) js r) k = Some i"
  by (induction js arbitrary: r) (auto simp: entries_settle_other consistent_settle_action)

lemma entries_advance_early:
  "entries r k = Some i \<Longrightarrow> t < deadline (actions r ! i) \<Longrightarrow> entries_valid r \<Longrightarrow>
   entries (advance t r) k = Some i"
  by (simp add: advance_def entries_fold_other in_due)

lemma complete_in_time:
  assumes "ops_accounted r" and "entries_valid r"
    and "entries r k = Some i" and "state_of i r = Some Pending"
    and "t < deadline (actions r ! i)"
  shows "ops_of i (executed (foldl registry_step (registry_step r (t, Complete k)) later))
           = [CompletionOp]"
proof -
  let ?a = "advance t r"
  let ?r = "registry_step r (t, Complete k)"
  have e: "entries ?a k = Some i" using assms(3,5,2) by (rule entries_advance_early)
  have p: "state_of i ?a = Some Pending" using assms(4,5) by (simp add: state_of_advance)
  have st: "state_of i ?r = Some Completed"
    using e p by (simp add: snd_registry_complete state_of_lookup_settle)
  have "ops_accounted ?r" using assms(1) by (rule sound_step)
  then have "ops_of i (executed ?r) = ops_for Completed" using st by (rule sound_ops)
  with settled_stays_foldl [OF st, of later] show ?thesis by simp
qed

lemma deadline_cancels:
  assumes "\<forall>(t', c') \<in> set post. c' = Complete k \<longrightarrow> max (clock (registry_run evs)) t0 + d \<le> t'"
    and "\<exists>(t', c') \<in> set post. max (clock (registry_run evs)) t0 + d \<le> t'"
  shows "ops_of (length (actions (registry_run evs)))
           (executed (registry_run (evs @ (t0, Register k d) # post))) = [CancellationOp]"
proof -
  let ?r0 = "registry_run evs"
  let ?i = "length (actions ?r0)"
  let ?r1 = "registry_step ?r0 (t0, Register k d)"
  let ?dl = "max (clock ?r0) t0 + d"
  have c1: "entries_valid ?r1" by (simp add: consistent_step consistent_run del: registry_step.simps)
  have s1: "ops_accounted ?r1" by (simp add: sound_step sound_run del: registry_step.simps)
  have st: "state_of ?i ?r1 = Some Pending" by (simp add: state_of_register)
  have k: "key (actions ?r1 ! ?i) = k" and dl: "deadline (actions ?r1 ! ?i) = ?dl"
    using register_new_fields [of k d "advance t0 ?r0"] by simp_all
  from uncompleted_foldl [OF c1 st _ k dl assms(1)] assms(2)
  have "state_of ?i (foldl registry_step ?r1 post) = Some Cancelled" by simp
  moreover have "ops_accounted (foldl registry_step ?r1 post)" using s1 by (rule sound_foldl)
  ultimately have "ops_of ?i (executed (foldl registry_step ?r1 post)) = ops_for Cancelled"
    by (intro sound_ops)
  then show ?thesis by (simp add: registry_run_append)
qed

subsection \<open>Exactly one operation\<close>

text \<open>
  Claim C2. For every registered Held Action and every sequence of timed \<open>register\<close>,
  \<open>complete\<close> and \<open>cancel\<close> calls: at most one operation of the action has ever been
  invoked, and at most once; once its deadline has passed exactly one has been invoked,
  whatever is called then or later; once the action is settled, no later call or timer
  invokes anything more for it; a \<open>complete\<close> for its key before the deadline invokes the
  completion operation and the cancellation operation never runs; and if no \<open>complete\<close>
  for its key is made before the deadline elapses, the cancellation operation is the one
  operation invoked, exactly once.
\<close>

theorem held_action_runs_exactly_one_operation:
  "length (ops_of i (executed (registry_run evs))) \<le> 1
   \<and> (state_of i (registry_run evs) \<noteq> None \<and> deadline (actions (registry_run evs) ! i) \<le> t \<longrightarrow>
        length (ops_of i (executed (registry_run (evs @ (t, c) # later)))) = 1)
   \<and> (state_of i (registry_run evs) = Some s \<and> s \<noteq> Pending \<longrightarrow>
        ops_of i (executed (registry_run evs)) = ops_for s
        \<and> ops_of i (executed (registry_run (evs @ later))) = ops_for s)
   \<and> (entries (registry_run evs) k = Some i \<and> state_of i (registry_run evs) = Some Pending
        \<and> t < deadline (actions (registry_run evs) ! i) \<longrightarrow>
        ops_of i (executed (registry_run (evs @ (t, Complete k) # later))) = [CompletionOp])
   \<and> ((\<forall>(t', c') \<in> set post. c' = Complete k \<longrightarrow> max (clock (registry_run evs)) t0 + d \<le> t')
        \<and> (\<exists>(t', c') \<in> set post. max (clock (registry_run evs)) t0 + d \<le> t') \<longrightarrow>
        ops_of (length (actions (registry_run evs)))
          (executed (registry_run (evs @ (t0, Register k d) # post))) = [CancellationOp])"
proof -
  let ?r = "registry_run evs"
  have so: "ops_accounted ?r" by (rule sound_run)
  have co: "entries_valid ?r" by (rule consistent_run)
  have p1: "length (ops_of i (executed ?r)) \<le> 1"
    using sound_at_most_one [OF so, of i] by simp
  have p2: "length (ops_of i (executed (registry_run (evs @ (t, c) # later)))) = 1"
    if a: "state_of i ?r \<noteq> None" "deadline (actions ?r ! i) \<le> t"
  proof -
    from a(1) obtain s0 where "state_of i ?r = Some s0" by auto
    from deadline_settles [OF so this a(2), of c]
    obtain s' where s': "s' \<noteq> Pending" "state_of i (registry_step ?r (t, c)) = Some s'"
      "ops_of i (executed (registry_step ?r (t, c))) = ops_for s'" by auto
    from settled_stays_foldl [OF s'(2,1), of later] s'(3)
    have "ops_of i (executed (registry_run (evs @ (t, c) # later))) = ops_for s'"
      by (simp add: registry_run_append del: registry_step.simps)
    with s'(1) show ?thesis by (cases s') simp_all
  qed
  have p3: "ops_of i (executed ?r) = ops_for s
            \<and> ops_of i (executed (registry_run (evs @ later))) = ops_for s"
    if a: "state_of i ?r = Some s" "s \<noteq> Pending"
    using settled_stays_foldl [OF a, of later] sound_ops [OF so a(1)]
    by (simp add: registry_run_append)
  have p4: "ops_of i (executed (registry_run (evs @ (t, Complete k) # later))) = [CompletionOp]"
    if a: "entries ?r k = Some i" "state_of i ?r = Some Pending" "t < deadline (actions ?r ! i)"
    using complete_in_time [OF so co a, of later]
    by (simp add: registry_run_append del: registry_step.simps)
  show ?thesis
    using p1 p2 p3 p4 deadline_cancels [of post k evs t0 d] by blast
qed

subsection \<open>The registration of a redemption\<close>

lemma advance_empty:
  "advance t \<lparr>actions = [], entries = e, clock = c, executed = x\<rparr> =
     \<lparr>actions = [], entries = e, clock = max c t, executed = x\<rparr>"
  by (simp add: advance_def due_def)

lemma run_register_first:
  "registry_run [(0, Register k d)] =
    \<lparr>actions = [\<lparr>key = k, deadline = d, state = Pending\<rparr>],
     entries = (\<lambda>_. None)(k \<mapsto> 0), clock = 0, executed = []\<rparr>"
  by (simp add: registry_run_def new_Registry_def advance_empty registry_register_def
        registry_cancel_def)

lemma redeem_registration_eq: "redeem_registration u = Register u 60000"
  by (simp add: redeem_registration_def timeoutMinutes_def)

theorem held_action_runs_exactly_one_operation_witness:
  "ops_of 0 (executed (registry_run
         [(0, redeem_registration (js_lit ''42'')), (60000, Wait)])) = [CancellationOp]
   \<and> ops_of 0 (executed (registry_run
         [(0, redeem_registration (js_lit ''42'')), (200, Complete (js_lit ''42'')),
          (300, Cancel (js_lit ''42'')), (60000, Wait), (70000, Complete (js_lit ''42''))]))
       = [CompletionOp]
   \<and> length (ops_of 0 (executed (registry_run
         [(0, redeem_registration (js_lit ''42'')), (60000, Cancel (js_lit ''42'')),
          (60001, Complete (js_lit ''42''))]))) = 1"
proof -
  let ?u = "js_lit ''42''"
  let ?reg = "[(0, Register ?u 60000)]"
  have a: "ops_of 0 (executed (registry_run [(0, Register ?u 60000), (60000, Wait)]))
             = [CancellationOp]"
    using held_action_runs_exactly_one_operation
            [where evs = "[]" and post = "[(60000, Wait)]" and k = ?u and ?t0.0 = 0
               and d = 60000 and i = 0 and t = 0 and c = Wait and later = "[]" and s = Pending]
    by (simp add: registry_run_def new_Registry_def)
  have b: "ops_of 0 (executed (registry_run
         [(0, Register ?u 60000), (200, Complete ?u), (300, Cancel ?u), (60000, Wait),
          (70000, Complete ?u)])) = [CompletionOp]"
    using held_action_runs_exactly_one_operation
            [where evs = ?reg and post = "[]" and k = ?u and ?t0.0 = 0
               and d = 0 and i = 0 and t = 200 and c = Wait
               and later = "[(300, Cancel ?u), (60000, Wait), (70000, Complete ?u)]"
               and s = Pending]
    by (simp add: run_register_first state_of_def)
  have c: "length (ops_of 0 (executed (registry_run
         [(0, Register ?u 60000), (60000, Cancel ?u), (60001, Complete ?u)]))) = 1"
    using held_action_runs_exactly_one_operation
            [where evs = ?reg and post = "[]" and k = ?u and ?t0.0 = 0
               and d = 0 and i = 0 and t = 60000 and c = "Cancel ?u"
               and later = "[(60001, Complete ?u)]" and s = Pending]
    by (simp add: run_register_first state_of_def)
  show ?thesis using a b c by (simp only: redeem_registration_eq)
qed

end
